theory Spec2Isabelle
  imports Main "HOL-Library.Word"
begin

unbundle bit_operations_syntax

section \<open>The Robin Hood hash table of \<^verbatim>\<open>lib/nghttp3_map.c\<close>\<close>

text \<open>
  The table maps 64-bit keys to non-null pointers. It is stored in three parallel
  arrays of \<open>2 ^ hashbits\<close> slots: the keys, the values and one byte per slot that
  holds the probe sequence length plus one (0 marks an empty slot).

  Conventions of the embedding:
  \<^item> \<^verbatim>\<open>nghttp3_map_key_type\<close> is \<^verbatim>\<open>uint64_t\<close>, a \<open>64 word\<close>; a \<^verbatim>\<open>void *\<close> is
    a \<open>64 word\<close> as well, with \<open>0\<close> for \<^verbatim>\<open>NULL\<close>; the bytes of \<^verbatim>\<open>psl\<close> are \<open>8 word\<close>.
  \<^item> \<^verbatim>\<open>size_t\<close> has 64 bits. The locals of that type (\<^verbatim>\<open>idx\<close>, \<^verbatim>\<open>psl\<close>,
    \<^verbatim>\<open>tablelen\<close> and \<^verbatim>\<open>mask\<close>, written \<open>msk\<close>) and the fields \<^verbatim>\<open>size\<close> and \<^verbatim>\<open>hashbits\<close> are natural numbers. The
    increment of \<^verbatim>\<open>size\<close> is written with its wrap-around; the cast of \<^verbatim>\<open>psl\<close> to
    \<^verbatim>\<open>uint8_t\<close> is \<open>of_nat\<close> into \<open>8 word\<close>, that is, the value modulo 256. The shift
    \<^verbatim>\<open>(size_t)1 << hashbits\<close> is \<open>2 ^ hashbits\<close>, which is what C computes for
    \<open>hashbits \<le> 63\<close> (beyond that C leaves the shift undefined, and
    \<^verbatim>\<open>nghttp3_map_insert\<close> never lets \<^verbatim>\<open>hashbits\<close> get there).
  \<^item> An unallocated table (\<^verbatim>\<open>keys == NULL\<close>) has empty arrays.
  \<^item> The allocator is outside the table: whether \<^verbatim>\<open>nghttp3_mem_calloc\<close> succeeds is
    an argument of the operations that may call it.
  \<^item> A \<^verbatim>\<open>for (;;)\<close> loop is \<open>forever body\<close>, which is \<open>None\<close> when the loop does not
    return; \<open>within n body\<close> is the same loop cut off after \<open>n\<close> iterations.
  \<^item> A failed \<^verbatim>\<open>assert\<close> is the outcome \<open>Aborted\<close>.
\<close>

type_synonym map_key = "64 word"
type_synonym ptr = "64 word"

record nghttp3_map =
  keys :: "map_key list"
  data :: "ptr list"
  psl :: "8 word list"
  seed :: "64 word"
  size_m :: nat
  hashbits :: nat

datatype 'a outcome = Aborted | Returned 'a

datatype ('s, 'r) iteration = Continue 's | Break 'r

partial_function (option) forever :: "('s \<Rightarrow> ('s, 'r) iteration) \<Rightarrow> 's \<Rightarrow> 'r option" where
  "forever body s = (case body s of Continue s' \<Rightarrow> forever body s' | Break r \<Rightarrow> Some r)"

fun within :: "nat \<Rightarrow> ('s \<Rightarrow> ('s, 'r) iteration) \<Rightarrow> 's \<Rightarrow> 'r option" where
  "within 0 body s = None"
| "within (Suc n) body s = (case body s of Continue s' \<Rightarrow> within n body s' | Break r \<Rightarrow> Some r)"

text \<open>The error codes of \<^verbatim>\<open>nghttp3.h\<close>.\<close>

definition NGHTTP3_ERR_INVALID_ARGUMENT :: int where
  "NGHTTP3_ERR_INVALID_ARGUMENT = - 101"

definition NGHTTP3_ERR_NOMEM :: int where
  "NGHTTP3_ERR_NOMEM = - 901"

definition NGHTTP3_INITIAL_HASHBITS :: nat where
  "NGHTTP3_INITIAL_HASHBITS = 4"

definition NGHTTP3_MAP_HASHER :: "64 word" where
  "NGHTTP3_MAP_HASHER = 0xf1357aea2e62a9c5"

definition NGHTTP3_MAP_FIBO :: "64 word" where
  "NGHTTP3_MAP_FIBO = 0x9e3779b97f4a7c15"

text \<open>\<^verbatim>\<open>sizeof(size_t) * 8 - 1\<close>\<close>

definition NGHTTP3_MAP_MAX_HASHBITS :: nat where
  "NGHTTP3_MAP_MAX_HASHBITS = 63"

definition nghttp3_map_init :: "64 word \<Rightarrow> nghttp3_map" where
  "nghttp3_map_init sd = \<lparr>keys = [], data = [], psl = [], seed = sd, size_m = 0, hashbits = 0\<rparr>"

definition tablelen :: "nghttp3_map \<Rightarrow> nat" where
  "tablelen m = 2 ^ hashbits m"

definition map_index :: "nghttp3_map \<Rightarrow> map_key \<Rightarrow> nat" where
  "map_index m key =
     unat (drop_bit (64 - hashbits m) ((key + seed m) * NGHTTP3_MAP_HASHER * NGHTTP3_MAP_FIBO))"

definition map_set_entry :: "nghttp3_map \<Rightarrow> nat \<Rightarrow> map_key \<Rightarrow> ptr \<Rightarrow> nat \<Rightarrow> nghttp3_map" where
  "map_set_entry m idx key d p =
     m\<lparr>keys := (keys m)[idx := key], data := (data m)[idx := d], psl := (psl m)[idx := of_nat p]\<rparr>"

subsection \<open>Enumeration\<close>



subsection \<open>Insertion\<close>

text \<open>
  One iteration of the loop of \<^verbatim>\<open>map_insert\<close>. The loop state is the table and the
  locals \<^verbatim>\<open>idx\<close>, \<^verbatim>\<open>psl\<close>, \<^verbatim>\<open>key\<close> and \<^verbatim>\<open>data\<close>. The three \<^verbatim>\<open>NGHTTP3_SWAP\<close>s
  exchange the incoming entry with the slot; the byte written is the incoming \<^verbatim>\<open>psl\<close>
  cast to \<^verbatim>\<open>uint8_t\<close>.
\<close>

definition map_insert_body ::
  "nat \<Rightarrow> nghttp3_map \<times> nat \<times> nat \<times> map_key \<times> ptr
     \<Rightarrow> (nghttp3_map \<times> nat \<times> nat \<times> map_key \<times> ptr, int \<times> nghttp3_map) iteration" where
  "map_insert_body msk = (\<lambda>(m, idx, p, key, d).
     let kpsl = unat (psl m ! idx) in
     if kpsl = 0 then
       Break (0, (map_set_entry m idx key d p)\<lparr>size_m := (size_m m + 1) mod 2 ^ 64\<rparr>)
     else if p > kpsl then
       Continue (map_set_entry m idx key d p, (idx + 1) AND msk, kpsl + 1, keys m ! idx, data m ! idx)
     else if keys m ! idx = key then
       Break (NGHTTP3_ERR_INVALID_ARGUMENT, m)
     else
       Continue (m, (idx + 1) AND msk, p + 1, key, d))"

definition map_insert :: "nghttp3_map \<Rightarrow> map_key \<Rightarrow> ptr \<Rightarrow> (int \<times> nghttp3_map) option" where
  "map_insert m key d =
     forever (map_insert_body (2 ^ hashbits m - 1)) (m, map_index m key, 1, key, d)"

text \<open>
  The loop of \<^verbatim>\<open>map_resize\<close> over the slots of the old table \<open>m\<close>, filling \<open>nm\<close>.
\<close>

fun map_resize_loop :: "nghttp3_map \<Rightarrow> nat list \<Rightarrow> nghttp3_map \<Rightarrow> nghttp3_map outcome option" where
  "map_resize_loop m [] nm = Some (Returned nm)"
| "map_resize_loop m (i # is) nm =
     (if psl m ! i = 0 then map_resize_loop m is nm
      else (case map_insert nm (keys m ! i) (data m ! i) of
              None \<Rightarrow> None
            | Some (rv, nm') \<Rightarrow> if 0 = rv then map_resize_loop m is nm' else Some Aborted))"

text \<open>
  \<open>calloc_ok\<close> tells whether \<^verbatim>\<open>nghttp3_mem_calloc\<close> returns a buffer. The new table
  starts zeroed, with \<^verbatim>\<open>size\<close> 0; the caller's \<^verbatim>\<open>size\<close> field is not assigned.
\<close>

definition map_resize :: "bool \<Rightarrow> nghttp3_map \<Rightarrow> nat \<Rightarrow> (int \<times> nghttp3_map) outcome option" where
  "map_resize calloc_ok m new_hashbits =
     (let new_map = \<lparr>keys = replicate (2 ^ new_hashbits) 0,
                     data = replicate (2 ^ new_hashbits) 0,
                     psl = replicate (2 ^ new_hashbits) 0,
                     seed = seed m, size_m = 0, hashbits = new_hashbits\<rparr>
      in if \<not> calloc_ok then Some (Returned (NGHTTP3_ERR_NOMEM, m))
         else (case (if size_m m \<noteq> 0 then map_resize_loop m [0 ..< tablelen m] new_map
                     else Some (Returned new_map)) of
                 None \<Rightarrow> None
               | Some Aborted \<Rightarrow> Some Aborted
               | Some (Returned nm) \<Rightarrow>
                   Some (Returned (0, m\<lparr>keys := keys nm, data := data nm, psl := psl nm,
                                          hashbits := new_hashbits\<rparr>))))"

definition nghttp3_map_insert ::
  "bool \<Rightarrow> nghttp3_map \<Rightarrow> map_key \<Rightarrow> ptr \<Rightarrow> (int \<times> nghttp3_map) outcome option" where
  "nghttp3_map_insert calloc_ok m key d =
     (if d = 0 then Some Aborted
      else if (size_m m + 1) mod 2 ^ 64 \<ge> tablelen m - drop_bit 3 (tablelen m) then
        (let new_hashbits = (if hashbits m \<noteq> 0 then hashbits m + 1 else NGHTTP3_INITIAL_HASHBITS)
         in if new_hashbits > NGHTTP3_MAP_MAX_HASHBITS then Some (Returned (NGHTTP3_ERR_NOMEM, m))
            else (case map_resize calloc_ok m new_hashbits of
                    None \<Rightarrow> None
                  | Some Aborted \<Rightarrow> Some Aborted
                  | Some (Returned (rv, m')) \<Rightarrow>
                      if rv \<noteq> 0 then Some (Returned (rv, m'))
                      else map_option Returned (map_insert m' key d)))
      else map_option Returned (map_insert m key d))"

subsection \<open>Lookup\<close>

definition find_body ::
  "nghttp3_map \<Rightarrow> nat \<Rightarrow> map_key \<Rightarrow> nat \<times> nat \<Rightarrow> (nat \<times> nat, ptr) iteration" where
  "find_body m msk key = (\<lambda>(idx, p).
     if p > unat (psl m ! idx) then Break 0
     else if keys m ! idx = key then Break (data m ! idx)
     else Continue ((idx + 1) AND msk, p + 1))"

definition nghttp3_map_find :: "nghttp3_map \<Rightarrow> map_key \<Rightarrow> ptr option" where
  "nghttp3_map_find m key =
     (if size_m m = 0 then Some 0
      else forever (find_body m (2 ^ hashbits m - 1) key) (map_index m key, 1))"

subsection \<open>Removal\<close>

text \<open>
  The inner loop of \<^verbatim>\<open>nghttp3_map_remove\<close> shifts the entries that follow the removed
  one back by one slot; its state is the table and the locals \<^verbatim>\<open>dest\<close> and \<^verbatim>\<open>idx\<close>.
\<close>

definition shift_body ::
  "nat \<Rightarrow> nghttp3_map \<times> nat \<times> nat \<Rightarrow> (nghttp3_map \<times> nat \<times> nat, nghttp3_map) iteration" where
  "shift_body msk = (\<lambda>(m, dest, idx).
     let kpsl = unat (psl m ! idx) in
     if kpsl \<le> 1 then Break (m\<lparr>psl := (psl m)[dest := 0]\<rparr>)
     else Continue (map_set_entry m dest (keys m ! idx) (data m ! idx) (kpsl - 1),
                    idx, (idx + 1) AND msk))"

text \<open>
  The outer loop finds the key as the lookup does. From the slot of the key on, the
  rest of the call is the inner loop, the decrement of \<^verbatim>\<open>size\<close> and the return: that
  is the \<open>(int \<times> nghttp3_map) option\<close> the outer loop breaks with.
\<close>

definition remove_body ::
  "nghttp3_map \<Rightarrow> nat \<Rightarrow> map_key \<Rightarrow> nat \<times> nat
     \<Rightarrow> (nat \<times> nat, (int \<times> nghttp3_map) option) iteration" where
  "remove_body m msk key = (\<lambda>(idx, p).
     if p > unat (psl m ! idx) then Break (Some (NGHTTP3_ERR_INVALID_ARGUMENT, m))
     else if keys m ! idx = key then
       Break (map_option (\<lambda>m'. (0, m'\<lparr>size_m := size_m m' - 1\<rparr>))
                (forever (shift_body msk) (m, idx, (idx + 1) AND msk)))
     else Continue ((idx + 1) AND msk, p + 1))"

definition nghttp3_map_remove :: "nghttp3_map \<Rightarrow> map_key \<Rightarrow> (int \<times> nghttp3_map) option" where
  "nghttp3_map_remove m key =
     (if size_m m = 0 then Some (NGHTTP3_ERR_INVALID_ARGUMENT, m)
      else Option.bind (forever (remove_body m (2 ^ hashbits m - 1) key) (map_index m key, 1)) id)"

subsection \<open>Reset and size\<close>

definition nghttp3_map_clear :: "nghttp3_map \<Rightarrow> nghttp3_map" where
  "nghttp3_map_clear m =
     (if size_m m = 0 then m
      else m\<lparr>psl := replicate (2 ^ hashbits m) 0, size_m := 0\<rparr>)"

definition nghttp3_map_size :: "nghttp3_map \<Rightarrow> nat" where
  "nghttp3_map_size m = size_m m"


section \<open>Specification vocabulary\<close>



text \<open>The growth policy in the words of the specification.\<close>

definition new_hashbits_of :: "nghttp3_map \<Rightarrow> nat" where
  "new_hashbits_of m = (if hashbits m = 0 then 4 else hashbits m + 1)"

definition must_grow :: "nghttp3_map \<Rightarrow> bool" where
  "must_grow m \<longleftrightarrow> tablelen m - tablelen m div 8 \<le> (size_m m + 1) mod 2 ^ 64"

text \<open>Two tables of the same geometry: same bit width, seed and array lengths.\<close>

definition same_shape :: "nghttp3_map \<Rightarrow> nghttp3_map \<Rightarrow> bool" where
  "same_shape m m' \<longleftrightarrow> hashbits m' = hashbits m \<and> seed m' = seed m
     \<and> length (keys m') = length (keys m) \<and> length (data m') = length (data m)
     \<and> length (psl m') = length (psl m)"

text \<open>
  The table of the specification's scenario: seed 0 and the keys 1, 2, 3 inserted with
  the values 10, 20, 30.
\<close>

definition table_123 :: nghttp3_map where
  "table_123 =
     \<lparr>keys = [0, 0, 0, 2, 0, 0, 0, 0, 0, 1, 0, 0, 0, 3, 0, 0],
      data = [0, 0, 0, 20, 0, 0, 0, 0, 0, 10, 0, 0, 0, 30, 0, 0],
      psl = [0, 0, 0, 1, 0, 0, 0, 0, 0, 1, 0, 0, 0, 1, 0, 0],
      seed = 0, size_m = 3, hashbits = 4\<rparr>"


text \<open>The byte of a slot as a number: the probe sequence length plus one, 0 when empty.\<close>

definition psl_at :: "nghttp3_map \<Rightarrow> nat \<Rightarrow> nat" where
  "psl_at m i = unat (psl m ! i)"

text \<open>An allocated table: the three arrays have \<open>2 ^ hashbits\<close> slots.\<close>

definition arrays_ok :: "nghttp3_map \<Rightarrow> bool" where
  "arrays_ok m \<longleftrightarrow> 1 \<le> hashbits m \<and> hashbits m \<le> 63
     \<and> length (keys m) = tablelen m \<and> length (data m) = tablelen m \<and> length (psl m) = tablelen m"

text \<open>
  The Robin Hood invariant of an allocated table. A live slot \<open>i\<close> holds a key whose
  home slot (\<^verbatim>\<open>map_index\<close>) lies \<open>psl - 1\<close> slots before \<open>i\<close>; from one slot to the next
  the byte grows by at most one, so that no empty slot and no entry closer to its home
  lies between a key and its home; the live keys are pairwise distinct.
\<close>

definition robin_hood :: "nghttp3_map \<Rightarrow> bool" where
  "robin_hood m \<longleftrightarrow> arrays_ok m
     \<and> (\<forall>i<tablelen m. psl_at m i \<noteq> 0 \<longrightarrow>
           (map_index m (keys m ! i) + (psl_at m i - 1)) mod tablelen m = i)
     \<and> (\<forall>i<tablelen m. psl_at m ((i + 1) mod tablelen m) \<le> psl_at m i + 1)
     \<and> (\<forall>i<tablelen m. \<forall>j<tablelen m.
           psl_at m i \<noteq> 0 \<and> psl_at m j \<noteq> 0 \<and> keys m ! i = keys m ! j \<longrightarrow> i = j)"

text \<open>
  The value the table holds for a key, read off the arrays without probing: the value of
  the first live slot that holds the key, \<^verbatim>\<open>NULL\<close> when there is none.
\<close>

definition lookup :: "nghttp3_map \<Rightarrow> map_key \<Rightarrow> ptr" where
  "lookup m k =
     (case filter (\<lambda>i. psl m ! i \<noteq> 0 \<and> keys m ! i = k) [0 ..< length (psl m)] of
        [] \<Rightarrow> 0
      | i # _ \<Rightarrow> data m ! i)"

text \<open>The contents of a table: the key and value of every live slot.\<close>

definition entries :: "nghttp3_map \<Rightarrow> (map_key \<times> ptr) set" where
  "entries m = {(keys m ! i, data m ! i) | i. i < length (psl m) \<and> psl m ! i \<noteq> 0}"

text \<open>The slots with nonzero \<^verbatim>\<open>psl\<close>.\<close>

definition live_slots :: "nghttp3_map \<Rightarrow> nat set" where
  "live_slots m = {i. i < length (psl m) \<and> psl m ! i \<noteq> 0}"

text \<open>
  The invariant of a table in which no probe sequence length has overflowed:
  \<^verbatim>\<open>size\<close> counts the live slots and is below the growth threshold, and an allocated
  table has at least 16 slots and is a Robin Hood table.
\<close>

definition table_inv :: "nghttp3_map \<Rightarrow> bool" where
  "table_inv m \<longleftrightarrow> hashbits m \<le> 63 \<and> size_m m = card (live_slots m)
     \<and> size_m m < tablelen m - tablelen m div 8
     \<and> (hashbits m = 0 \<or> 4 \<le> hashbits m \<and> robin_hood m)"

text \<open>
  What holds of every table the operations build, whatever the probe sequence lengths:
  \<^verbatim>\<open>size\<close> is below the growth threshold and at least the number of live slots, and an
  allocated table has at least 16 slots in each array.
\<close>

definition well_formed :: "nghttp3_map \<Rightarrow> bool" where
  "well_formed m \<longleftrightarrow> hashbits m \<le> 63 \<and> card (live_slots m) \<le> size_m m
     \<and> size_m m < tablelen m - tablelen m div 8
     \<and> (hashbits m = 0 \<or> 4 \<le> hashbits m \<and> arrays_ok m)"

text \<open>The keys of the live slots among the \<open>2 ^ hashbits\<close> slots the loops range over.\<close>

definition live_keys :: "nghttp3_map \<Rightarrow> map_key set" where
  "live_keys m = {keys m ! i | i. i < tablelen m \<and> psl m ! i \<noteq> 0}"

text \<open>No two live slots hold the same key.\<close>

definition distinct_live_keys :: "nghttp3_map \<Rightarrow> bool" where
  "distinct_live_keys m \<longleftrightarrow>
     (\<forall>i<tablelen m. \<forall>j<tablelen m.
        psl m ! i \<noteq> 0 \<and> psl m ! j \<noteq> 0 \<and> keys m ! i = keys m ! j \<longrightarrow> i = j)"

text \<open>
  The table states reachable through the public operations: a new table, and the table
  left by a call of \<^verbatim>\<open>nghttp3_map_insert\<close> (with any answer of the allocator),
  \<^verbatim>\<open>nghttp3_map_remove\<close> or \<^verbatim>\<open>nghttp3_map_clear\<close> that returns, on a reachable table.
\<close>

inductive reachable :: "nghttp3_map \<Rightarrow> bool" where
  init: "reachable (nghttp3_map_init sd)"
| insert: "reachable m \<Longrightarrow> nghttp3_map_insert calloc_ok m k d = Some (Returned (rv, m'))
     \<Longrightarrow> reachable m'"
| remove: "reachable m \<Longrightarrow> nghttp3_map_remove m k = Some (rv, m') \<Longrightarrow> reachable m'"
| clear: "reachable m \<Longrightarrow> reachable (nghttp3_map_clear m)"

text \<open>
  Histories of calls with their bookkeeping. \<open>history B m M i r\<close>: a sequence of calls
  of \<^verbatim>\<open>nghttp3_map_insert\<close>, \<^verbatim>\<open>nghttp3_map_remove\<close> and \<^verbatim>\<open>nghttp3_map_clear\<close> on a
  new table, in which \<^verbatim>\<open>nghttp3_map_insert\<close> is only called on a table of fewer than
  \<open>B\<close> entries, leads to the table \<open>m\<close>. \<open>M\<close> maps every key that was inserted with
  success, and not removed with success or cleared since, to the value it was last
  inserted with; \<open>i\<close> and \<open>r\<close> count the successful inserts and the successful removes
  since the table was created or last cleared.
\<close>

inductive history ::
  "nat \<Rightarrow> nghttp3_map \<Rightarrow> (map_key \<rightharpoonup> ptr) \<Rightarrow> nat \<Rightarrow> nat \<Rightarrow> bool" for B where
  init: "history B (nghttp3_map_init sd) Map.empty 0 0"
| insert_ok: "history B m M i r \<Longrightarrow> size_m m < B
     \<Longrightarrow> nghttp3_map_insert calloc_ok m k d = Some (Returned (0, m'))
     \<Longrightarrow> history B m' (M(k \<mapsto> d)) (i + 1) r"
| insert_failed: "history B m M i r \<Longrightarrow> size_m m < B
     \<Longrightarrow> nghttp3_map_insert calloc_ok m k d = Some (Returned (rv, m')) \<Longrightarrow> rv \<noteq> 0
     \<Longrightarrow> history B m' M i r"
| remove_ok: "history B m M i r \<Longrightarrow> nghttp3_map_remove m k = Some (0, m')
     \<Longrightarrow> history B m' (M(k := None)) i (r + 1)"
| remove_failed: "history B m M i r \<Longrightarrow> nghttp3_map_remove m k = Some (rv, m') \<Longrightarrow> rv \<noteq> 0
     \<Longrightarrow> history B m' M i r"
| clear: "history B m M i r \<Longrightarrow> history B (nghttp3_map_clear m) Map.empty 0 0"

(*DEFS_END*)

section \<open>Loops\<close>

lemma within_forever: "within n body s = Some r \<Longrightarrow> forever body s = Some r"
proof (induction n arbitrary: s)
  case 0
  then show ?case by simp
next
  case (Suc n)
  show ?case
  proof (cases "body s")
    case (Continue s')
    with Suc.prems have "within n body s' = Some r" by simp
    then have "forever body s' = Some r" by (rule Suc.IH)
    with Continue show ?thesis by (subst forever.simps) simp
  next
    case (Break r')
    with Suc.prems show ?thesis by (subst forever.simps) simp
  qed
qed

lemma forever_within:
  "forever body s = Some r \<Longrightarrow> \<exists>n. within n body s = Some r"
proof (induction rule: forever.raw_induct[rotated -1, consumes 1, case_names step])
  case (step f b t y)
  show ?case
  proof (cases "b t")
    case (Continue s')
    with step(2) have "f b s' = Some y" by simp
    then obtain n where "within n b s' = Some y" using step(1) by blast
    with Continue have "within (Suc n) b t = Some y" by simp
    then show ?thesis ..
  next
    case (Break r')
    with step(2) have "within (Suc 0) b t = Some y" by simp
    then show ?thesis ..
  qed
qed

lemma within_invariant:
  assumes "within n body s = Some r" and "I s"
    and "\<And>s s'. I s \<Longrightarrow> body s = Continue s' \<Longrightarrow> I s'"
    and "\<And>s r. I s \<Longrightarrow> body s = Break r \<Longrightarrow> Q r"
  shows "Q r"
  using assms(1,2)
proof (induction n arbitrary: s)
  case 0
  then show ?case by simp
next
  case (Suc n)
  show ?case
  proof (cases "body s")
    case (Continue s')
    with Suc.prems assms(3) have "within n body s' = Some r" "I s'" by auto
    then show ?thesis by (rule Suc.IH)
  next
    case (Break r')
    with Suc.prems assms(4) show ?thesis by auto
  qed
qed

lemma forever_invariant:
  assumes "forever body s = Some r" and "I s"
    and "\<And>s s'. I s \<Longrightarrow> body s = Continue s' \<Longrightarrow> I s'"
    and "\<And>s r. I s \<Longrightarrow> body s = Break r \<Longrightarrow> Q r"
  shows "Q r"
proof -
  from forever_within[OF assms(1)] obtain n where "within n body s = Some r" ..
  then show ?thesis using assms(2-4) by (rule within_invariant)
qed

section \<open>Evaluation on concrete tables\<close>

lemma replicate_numeral: "replicate (numeral v) x = x # replicate (numeral v - 1) x"
  by (simp add: numeral_eq_Suc)

lemma list_update_Cons_numeral: "(x # xs)[numeral v := y] = x # xs[numeral v - 1 := y]"
  by (simp add: numeral_eq_Suc)

lemmas eval_defs = replicate_numeral list_update_Cons_numeral
  nghttp3_map_insert_def nghttp3_map_init_def tablelen_def map_resize_def
  NGHTTP3_INITIAL_HASHBITS_def NGHTTP3_MAP_MAX_HASHBITS_def map_insert_def map_index_def
  NGHTTP3_MAP_HASHER_def NGHTTP3_MAP_FIBO_def forever.simps map_insert_body_def map_set_entry_def
  NGHTTP3_ERR_INVALID_ARGUMENT_def NGHTTP3_ERR_NOMEM_def nghttp3_map_find_def find_body_def
  nghttp3_map_remove_def remove_body_def shift_body_def

lemma table_123_built:
  "nghttp3_map_insert True (nghttp3_map_init 0) 1 10 = Some (Returned (0, t1)) \<and>
   nghttp3_map_insert True t1 2 20 = Some (Returned (0, t2)) \<and>
   nghttp3_map_insert True t2 3 30 = Some (Returned (0, table_123))"
  if "t1 = \<lparr>keys = [0, 0, 0, 0, 0, 0, 0, 0, 0, 1, 0, 0, 0, 0, 0, 0],
             data = [0, 0, 0, 0, 0, 0, 0, 0, 0, 10, 0, 0, 0, 0, 0, 0],
             psl = [0, 0, 0, 0, 0, 0, 0, 0, 0, 1, 0, 0, 0, 0, 0, 0],
             seed = 0, size_m = 1, hashbits = 4\<rparr>"
    and "t2 = \<lparr>keys = [0, 0, 0, 2, 0, 0, 0, 0, 0, 1, 0, 0, 0, 0, 0, 0],
              data = [0, 0, 0, 20, 0, 0, 0, 0, 0, 10, 0, 0, 0, 0, 0, 0],
              psl = [0, 0, 0, 1, 0, 0, 0, 0, 0, 1, 0, 0, 0, 0, 0, 0],
              seed = 0, size_m = 2, hashbits = 4\<rparr>"
  unfolding that by (simp add: eval_defs table_123_def)

section \<open>Enumeration\<close>





section \<open>The byte of the probe sequence length\<close>

text \<open>
  C10. \<^verbatim>\<open>map_set_entry\<close> stores the probe sequence length as a byte: the stored value is
  the length modulo 256, so it is the length itself exactly when that is at most 255,
  and a length of 256 is stored as 0, the mark of an empty slot.
\<close>

theorem psl_byte_wraps:
  "idx < length (psl m) \<Longrightarrow>
     unat (psl (map_set_entry m idx key d p) ! idx) = p mod 256
   \<and> (unat (psl (map_set_entry m idx key d p) ! idx) = p \<longleftrightarrow> p \<le> 255)
   \<and> psl (map_set_entry m idx key d 256) ! idx = 0"
  by (auto simp add: map_set_entry_def unat_of_nat)

theorem psl_byte_wraps_witness:
  "(4::nat) < length (psl table_123) \<and>
   unat (psl (map_set_entry table_123 4 7 70 255) ! 4) = 255 \<and>
   unat (psl (map_set_entry table_123 4 7 70 256) ! 4) = 0 \<and>
   unat (psl (map_set_entry table_123 4 7 70 300) ! 4) = 44"
  using psl_byte_wraps[of 4 table_123 7 70 255] psl_byte_wraps[of 4 table_123 7 70 256]
    psl_byte_wraps[of 4 table_123 7 70 300]
  by (simp add: table_123_def)

section \<open>Geometry of the table\<close>

lemma map_set_entry_simps [simp]:
  "keys (map_set_entry m i k d p) = (keys m)[i := k]"
  "data (map_set_entry m i k d p) = (data m)[i := d]"
  "psl (map_set_entry m i k d p) = (psl m)[i := of_nat p]"
  "seed (map_set_entry m i k d p) = seed m"
  "size_m (map_set_entry m i k d p) = size_m m"
  "hashbits (map_set_entry m i k d p) = hashbits m"
  by (simp_all add: map_set_entry_def)

lemma same_shape_refl [simp]: "same_shape m m"
  by (simp add: same_shape_def)

lemma same_shape_trans: "same_shape a b \<Longrightarrow> same_shape b c \<Longrightarrow> same_shape a c"
  by (simp add: same_shape_def)

lemma map_insert_body_Continue_shape:
  "map_insert_body msk (m, idx, p, k, d) = Continue (m', idx', p', k', d')
   \<Longrightarrow> same_shape m m' \<and> size_m m' = size_m m"
  by (auto simp: map_insert_body_def Let_def same_shape_def split: if_splits)

lemma map_insert_body_Break_shape:
  "map_insert_body msk (m, idx, p, k, d) = Break (rv, m') \<Longrightarrow> same_shape m m'"
  by (auto simp: map_insert_body_def Let_def same_shape_def split: if_splits)

lemma map_insert_shape:
  assumes "map_insert m key d = Some (rv, m')"
  shows "same_shape m m'"
proof -
  have "(\<lambda>(rv, m'). same_shape m m') (rv, m')"
  proof (rule forever_invariant[OF assms[unfolded map_insert_def],
        where I = "\<lambda>(m1, idx, p, k, d). same_shape m m1"])
    show "case (m, map_index m key, 1, key, d) of (m1, idx, p, k, d) \<Rightarrow> same_shape m m1"
      by simp
  next
    fix s s' assume "case s of (m1, idx, p, k, d) \<Rightarrow> same_shape m m1"
      and "map_insert_body (2 ^ hashbits m - 1) s = Continue s'"
    then show "case s' of (m1, idx, p, k, d) \<Rightarrow> same_shape m m1"
      by (cases s; cases s') (auto dest!: map_insert_body_Continue_shape intro: same_shape_trans)
  next
    fix s r assume "case s of (m1, idx, p, k, d) \<Rightarrow> same_shape m m1"
      and "map_insert_body (2 ^ hashbits m - 1) s = Break r"
    then show "case r of (rv, m') \<Rightarrow> same_shape m m'"
      by (cases s; cases r) (auto dest!: map_insert_body_Break_shape intro: same_shape_trans)
  qed
  then show ?thesis by simp
qed

lemma map_resize_loop_shape:
  "map_resize_loop m is nm = Some (Returned nm') \<Longrightarrow> same_shape nm nm'"
proof (induction "is" arbitrary: nm)
  case Nil
  then show ?case by simp
next
  case (Cons i "is")
  show ?case
  proof (cases "psl m ! i = 0")
    case True
    with Cons show ?thesis by simp
  next
    case False
    with Cons.prems obtain nm1 where
      ins: "map_insert nm (keys m ! i) (data m ! i) = Some (0, nm1)"
      and rest: "map_resize_loop m is nm1 = Some (Returned nm')"
      by (auto split: option.splits if_splits)
    from map_insert_shape[OF ins] Cons.IH[OF rest] show ?thesis
      by (rule same_shape_trans)
  qed
qed

lemma map_resize_Returned:
  assumes "map_resize calloc_ok m nb = Some (Returned (rv, m'))"
  shows "(\<not> calloc_ok \<and> rv = NGHTTP3_ERR_NOMEM \<and> m' = m)
       \<or> (calloc_ok \<and> rv = 0 \<and> hashbits m' = nb \<and> seed m' = seed m \<and> size_m m' = size_m m
            \<and> length (keys m') = 2 ^ nb \<and> length (data m') = 2 ^ nb \<and> length (psl m') = 2 ^ nb)"
proof (cases calloc_ok)
  case False
  with assms show ?thesis by (simp add: map_resize_def)
next
  case True
  let ?new = "\<lparr>keys = replicate (2 ^ nb) 0, data = replicate (2 ^ nb) 0,
                psl = replicate (2 ^ nb) 0, seed = seed m, size_m = 0, hashbits = nb\<rparr>"
  from assms True obtain nm where
    nm: "(if size_m m \<noteq> 0 then map_resize_loop m [0 ..< tablelen m] ?new else Some (Returned ?new))
          = Some (Returned nm)"
    and res: "rv = 0" "m' = m\<lparr>keys := keys nm, data := data nm, psl := psl nm, hashbits := nb\<rparr>"
    by (auto simp: map_resize_def Let_def split: option.splits outcome.splits)
  from nm have "same_shape ?new nm"
    by (auto split: if_splits dest: map_resize_loop_shape)
  with res True show ?thesis by (simp add: same_shape_def)
qed

section \<open>The growth policy\<close>




lemma and_msk: "(i + 1) AND (2 ^ b - 1) = (i + 1) mod (2 ^ b :: nat)"
  by (metis mask_eq_exp_minus_1 take_bit_eq_mask take_bit_eq_mod)

lemma and_msk_Suc: "Suc i AND (2 ^ b - Suc 0) = Suc i mod (2 ^ b :: nat)"
  using and_msk[of i b] by simp

lemma psl_at_zero: "psl_at m i = 0 \<longleftrightarrow> psl m ! i = 0"
  by (simp add: psl_at_def unat_eq_0)

lemma psl_at_le: "psl_at m i \<le> 255"
proof -
  have "unat (psl m ! i) < 2 ^ LENGTH(8)" by (rule unsigned_less)
  then show ?thesis by (simp add: psl_at_def)
qed

lemma tablelen_pos [simp]: "0 < tablelen m"
  by (simp add: tablelen_def)

lemma map_index_less: "1 \<le> hashbits m \<Longrightarrow> hashbits m \<le> 63 \<Longrightarrow> map_index m k < tablelen m"
proof -
  assume b: "1 \<le> hashbits m" "hashbits m \<le> 63"
  let ?w = "(k + seed m) * NGHTTP3_MAP_HASHER * NGHTTP3_MAP_FIBO"
  have "unat (drop_bit (64 - hashbits m) ?w) = unat ?w div 2 ^ (64 - hashbits m)"
    by (simp only: unat_drop_bit_eq) (simp add: drop_bit_eq_div)
  moreover have "unat ?w < 2 ^ 64" using unsigned_less[of ?w, where 'a = nat] by simp
  moreover have "(2::nat) ^ 64 = 2 ^ (64 - hashbits m) * 2 ^ hashbits m"
    using b by (simp flip: power_add)
  ultimately show ?thesis
    unfolding map_index_def tablelen_def
    by (metis less_mult_imp_div_less mult.commute)
qed

lemma lookup_miss:
  assumes "\<forall>i<length (psl m). psl m ! i \<noteq> 0 \<longrightarrow> keys m ! i \<noteq> k"
  shows "lookup m k = 0"
proof -
  have "filter (\<lambda>i. psl m ! i \<noteq> 0 \<and> keys m ! i = k) [0 ..< length (psl m)] = []"
    using assms by (auto simp: filter_empty_conv)
  then show ?thesis by (simp add: lookup_def)
qed

lemma lookup_hit:
  assumes i: "i < length (psl m)" "psl m ! i \<noteq> 0" "keys m ! i = k"
    and uniq: "\<forall>j<length (psl m). psl m ! j \<noteq> 0 \<and> keys m ! j = k \<longrightarrow> j = i"
  shows "lookup m k = data m ! i"
proof -
  let ?P = "\<lambda>i. psl m ! i \<noteq> 0 \<and> keys m ! i = k"
  have "i \<in> set (filter ?P [0 ..< length (psl m)])" using i by simp
  then obtain j js where js: "filter ?P [0 ..< length (psl m)] = j # js"
    by (cases "filter ?P [0 ..< length (psl m)]") auto
  then have "j \<in> set (filter ?P [0 ..< length (psl m)])" by simp
  then have "j = i" using uniq by auto
  with js show ?thesis by (simp add: lookup_def)
qed

lemma rh_chain:
  assumes "robin_hood m" "i < tablelen m"
  shows "psl_at m ((i + t) mod tablelen m) \<le> psl_at m i + t"
proof (induction t)
  case 0
  with assms show ?case by simp
next
  case (Suc t)
  have "(i + Suc t) mod tablelen m = ((i + t) mod tablelen m + 1) mod tablelen m"
    by (simp add: mod_Suc_eq)
  moreover have "psl_at m (((i + t) mod tablelen m + 1) mod tablelen m)
      \<le> psl_at m ((i + t) mod tablelen m) + 1"
    using assms(1) by (simp add: robin_hood_def)
  ultimately show ?case using Suc by simp
qed

lemma find_miss:
  assumes rh: "robin_hood m"
    and p: "1 \<le> p"
    and idx: "idx = (map_index m k + (p - 1)) mod tablelen m"
    and notyet: "\<forall>t<p - 1. \<not> (psl_at m ((map_index m k + t) mod tablelen m) \<noteq> 0
                   \<and> keys m ! ((map_index m k + t) mod tablelen m) = k)"
    and lt: "psl_at m idx < p"
  shows "lookup m k = 0"
proof (rule lookup_miss, intro allI impI)
  fix i assume i: "i < length (psl m)" "psl m ! i \<noteq> 0"
  have len: "length (psl m) = tablelen m" using rh by (simp add: robin_hood_def arrays_ok_def)
  have idxlt: "idx < tablelen m" using idx by simp
  show "keys m ! i \<noteq> k"
  proof
    assume k: "keys m ! i = k"
    let ?q = "psl_at m i"
    have q: "?q \<noteq> 0" using i by (simp add: psl_at_zero)
    have home: "(map_index m k + (?q - 1)) mod tablelen m = i"
      using rh i q k len by (auto simp: robin_hood_def)
    show False
    proof (cases "p \<le> ?q")
      case True
      have "(idx + (?q - p)) mod tablelen m
          = (map_index m k + (p - 1) + (?q - p)) mod tablelen m"
        unfolding idx by (rule mod_add_left_eq)
      also have "map_index m k + (p - 1) + (?q - p) = map_index m k + (?q - 1)"
        using True p by simp
      also have "\<dots> mod tablelen m = i" by (rule home)
      finally have "?q \<le> psl_at m idx + (?q - p)"
        using rh_chain[OF rh idxlt, of "?q - p"] by simp
      with True lt show False by simp
    next
      case False
      then have "?q - 1 < p - 1" using q by simp
      with notyet home q k show False by auto
    qed
  qed
qed

lemma find_loop:
  assumes rh: "robin_hood m"
    and p: "1 \<le> p"
    and idx: "idx = (map_index m k + (p - 1)) mod tablelen m"
    and notyet: "\<forall>t<p - 1. \<not> (psl_at m ((map_index m k + t) mod tablelen m) \<noteq> 0
                   \<and> keys m ! ((map_index m k + t) mod tablelen m) = k)"
  shows "forever (find_body m (2 ^ hashbits m - 1) k) (idx, p) = Some (lookup m k)"
  using p idx notyet
proof (induction "256 - p" arbitrary: p idx)
  case 0
  then have "256 \<le> p" by simp
  with psl_at_le[of m idx] have lt: "psl_at m idx < p" by simp
  have "lookup m k = 0"
    using rh "0.prems" lt by (rule find_miss)
  then show ?case
    by (subst forever.simps) (use lt in \<open>simp add: find_body_def psl_at_def\<close>)
next
  case (Suc n)
  note * = Suc.prems
  have len: "length (psl m) = tablelen m" using rh by (simp add: robin_hood_def arrays_ok_def)
  have idxlt: "idx < tablelen m" using * by simp
  show ?case
  proof (cases "psl_at m idx < p")
    case lt: True
    have "lookup m k = 0"
      using rh * lt by (rule find_miss)
    then show ?thesis
      by (subst forever.simps) (use lt in \<open>simp add: find_body_def psl_at_def\<close>)
  next
    case ge: False
    then have live: "psl m ! idx \<noteq> 0" using *(1) by (auto simp flip: psl_at_zero)
    show ?thesis
    proof (cases "keys m ! idx = k")
      case True
      have "lookup m k = data m ! idx"
      proof (rule lookup_hit)
        show "idx < length (psl m)" using idxlt len by simp
        show "psl m ! idx \<noteq> 0" by (rule live)
        show "keys m ! idx = k" by (rule True)
        show "\<forall>j<length (psl m). psl m ! j \<noteq> 0 \<and> keys m ! j = k \<longrightarrow> j = idx"
          using rh True live idxlt len by (auto simp: robin_hood_def psl_at_zero)
      qed
      then show ?thesis
        by (subst forever.simps) (use ge True in \<open>simp add: find_body_def psl_at_def\<close>)
    next
      case False
      have step: "find_body m (2 ^ hashbits m - 1) k (idx, p)
          = Continue ((idx + 1) mod tablelen m, p + 1)"
        using ge False by (simp add: find_body_def psl_at_def and_msk_Suc tablelen_def)
      have "forever (find_body m (2 ^ hashbits m - 1) k) ((idx + 1) mod tablelen m, p + 1)
          = Some (lookup m k)"
      proof (rule Suc.hyps(1))
        show "n = 256 - (p + 1)" using Suc.hyps(2) by simp
        show "1 \<le> p + 1" by simp
        show "(idx + 1) mod tablelen m = (map_index m k + (p + 1 - 1)) mod tablelen m"
          using *(1,2) by (simp add: mod_Suc_eq)
        show "\<forall>t<p + 1 - 1. \<not> (psl_at m ((map_index m k + t) mod tablelen m) \<noteq> 0
                   \<and> keys m ! ((map_index m k + t) mod tablelen m) = k)"
        proof (intro allI impI)
          fix t assume "t < p + 1 - 1"
          then consider "t < p - 1" | "t = p - 1" by linarith
          then show "\<not> (psl_at m ((map_index m k + t) mod tablelen m) \<noteq> 0
                   \<and> keys m ! ((map_index m k + t) mod tablelen m) = k)"
            using *(2,3) False by cases auto
        qed
      qed
      with step show ?thesis by (subst forever.simps) simp
    qed
  qed
qed

lemma find_correct:
  assumes "robin_hood m" "size_m m \<noteq> 0"
  shows "nghttp3_map_find m k = Some (lookup m k)"
proof -
  have "map_index m k < tablelen m"
    using assms(1) by (auto simp: robin_hood_def arrays_ok_def intro: map_index_less)
  then have "forever (find_body m (2 ^ hashbits m - 1) k) (map_index m k, 1) = Some (lookup m k)"
    using assms(1) by (intro find_loop) auto
  with assms(2) show ?thesis by (simp add: nghttp3_map_find_def)
qed

lemma tablelen_cong: "hashbits m' = hashbits m \<Longrightarrow> tablelen m' = tablelen m"
  by (simp add: tablelen_def)

lemma map_index_cong:
  "hashbits m' = hashbits m \<Longrightarrow> seed m' = seed m \<Longrightarrow> map_index m' k = map_index m k"
  by (simp add: map_index_def)

lemma tablelen_set_entry [simp]: "tablelen (map_set_entry m i k d p) = tablelen m"
  by (simp add: tablelen_def)

lemma map_index_set_entry [simp]: "map_index (map_set_entry m i k' d p) k = map_index m k"
  by (simp add: map_index_def)

lemma tablelen_size [simp]: "tablelen (m\<lparr>size_m := n\<rparr>) = tablelen m"
  by (simp add: tablelen_def)

lemma map_index_size [simp]: "map_index (m\<lparr>size_m := n\<rparr>) k = map_index m k"
  by (simp add: map_index_def)

lemma psl_at_size [simp]: "psl_at (m\<lparr>size_m := n\<rparr>) i = psl_at m i"
  by (simp add: psl_at_def)

lemma byte_of_psl: "1 \<le> p \<Longrightarrow> p \<le> 255 \<Longrightarrow> unat (of_nat p :: 8 word) = p"
  by (simp add: unat_of_nat)

lemma psl_at_set_entry:
  "i < length (psl m) \<Longrightarrow> 1 \<le> p \<Longrightarrow> p \<le> 255 \<Longrightarrow>
   psl_at (map_set_entry m i k d p) j = (if j = i then p else psl_at m j)"
  by (simp add: psl_at_def byte_of_psl)

lemma tablelen_ge2: "arrays_ok m \<Longrightarrow> 2 \<le> tablelen m"
proof -
  assume "arrays_ok m"
  then have "1 \<le> hashbits m" by (simp add: arrays_ok_def)
  then have "(2::nat) ^ 1 \<le> 2 ^ hashbits m" by (intro power_increasing) auto
  then show ?thesis by (simp add: tablelen_def)
qed

lemma mod_wrap: "i < N \<Longrightarrow> t < N \<Longrightarrow> (i + t) mod N = (if i + t < N then i + t else i + t - (N::nat))"
  by (simp add: le_mod_geq)

lemma far_neq: "i < N \<Longrightarrow> 0 < t \<Longrightarrow> t < N \<Longrightarrow> (i + t) mod N \<noteq> (i::nat)"
  by (auto simp: mod_wrap split: if_splits)



lemma rh_lengths:
  "robin_hood m \<Longrightarrow> length (psl m) = tablelen m \<and> length (keys m) = tablelen m
     \<and> length (data m) = tablelen m \<and> 2 \<le> tablelen m"
  by (simp add: robin_hood_def arrays_ok_def tablelen_ge2)


lemma robin_hood_size [simp]: "robin_hood (m\<lparr>size_m := n\<rparr>) = robin_hood m"
  by (simp add: robin_hood_def arrays_ok_def)

lemma entries_size [simp]: "entries (m\<lparr>size_m := n\<rparr>) = entries m"
  by (simp add: entries_def)

lemma live_slots_size [simp]: "live_slots (m\<lparr>size_m := n\<rparr>) = live_slots m"
  by (simp add: live_slots_def)

lemma same_shape_size [simp]: "same_shape m (m'\<lparr>size_m := n\<rparr>) = same_shape m m'"
  by (simp add: same_shape_def)

lemma same_shape_set_entry [simp]: "same_shape m (map_set_entry m i k d p)"
  by (simp add: same_shape_def)

lemma byte_nonzero: "1 \<le> p \<Longrightarrow> p \<le> 255 \<Longrightarrow> (of_nat p :: 8 word) \<noteq> 0"
  using byte_of_psl[of p] by (metis not_one_le_zero unat_0 unsigned_0)

lemma live_slots_set_entry:
  "idx < length (psl m) \<Longrightarrow> 1 \<le> p \<Longrightarrow> p \<le> 255 \<Longrightarrow>
   live_slots (map_set_entry m idx k d p) = insert idx (live_slots m)"
  by (auto simp: live_slots_def nth_list_update byte_nonzero)



lemma body_place:
  "psl_at m idx = 0 \<Longrightarrow> map_insert_body msk (m, idx, p, k, d)
     = Break (0, (map_set_entry m idx k d p)\<lparr>size_m := (size_m m + 1) mod 2 ^ 64\<rparr>)"
  by (simp add: map_insert_body_def psl_at_def)

lemma body_swap:
  "psl_at m idx \<noteq> 0 \<Longrightarrow> psl_at m idx < p \<Longrightarrow>
   map_insert_body (2 ^ hashbits m - 1) (m, idx, p, k, d)
     = Continue (map_set_entry m idx k d p, (idx + 1) mod tablelen m, psl_at m idx + 1,
                 keys m ! idx, data m ! idx)"
  by (simp add: map_insert_body_def psl_at_def and_msk_Suc tablelen_def)

lemma body_dup:
  "psl_at m idx \<noteq> 0 \<Longrightarrow> p \<le> psl_at m idx \<Longrightarrow> keys m ! idx = k \<Longrightarrow>
   map_insert_body msk (m, idx, p, k, d) = Break (NGHTTP3_ERR_INVALID_ARGUMENT, m)"
  by (simp add: map_insert_body_def psl_at_def)

lemma body_walk:
  "psl_at m idx \<noteq> 0 \<Longrightarrow> p \<le> psl_at m idx \<Longrightarrow> keys m ! idx \<noteq> k \<Longrightarrow>
   map_insert_body (2 ^ hashbits m - 1) (m, idx, p, k, d)
     = Continue (m, (idx + 1) mod tablelen m, p + 1, k, d)"
  by (simp add: map_insert_body_def psl_at_def and_msk_Suc tablelen_def)

lemma step_slot: "((idx + 1) mod N + t) mod N = (idx + Suc t) mod (N::nat)"
  by (simp add: mod_add_left_eq)

lemma step_slot_Suc: "(Suc idx mod N + t) mod N = Suc (idx + t) mod (N::nat)"
  using step_slot[of idx N t] by simp




lemma slot_reach: "idx < N \<Longrightarrow> e < N \<Longrightarrow> (idx + (e + N - idx) mod N) mod N = (e::nat)"
proof -
  assume a: "idx < N" "e < N"
  have "(idx + (e + N - idx) mod N) mod N = (idx + (e + N - idx)) mod N"
    by (rule mod_add_right_eq)
  also have "idx + (e + N - idx) = e + N" using a by simp
  finally show ?thesis using a by simp
qed



lemma finite_live_slots [simp]: "finite (live_slots m)"
  by (simp add: live_slots_def)


lemma lookup_in:
  assumes "robin_hood m" "(k, d) \<in> entries m"
  shows "lookup m k = d"
proof -
  note len = rh_lengths[OF assms(1)]
  from assms(2) obtain i where i: "i < length (psl m)" "psl m ! i \<noteq> 0" "keys m ! i = k"
    "data m ! i = d" by (auto simp: entries_def)
  have "\<forall>j<length (psl m). psl m ! j \<noteq> 0 \<and> keys m ! j = k \<longrightarrow> j = i"
    using assms(1) i len unfolding robin_hood_def psl_at_zero by auto
  from lookup_hit[OF i(1,2,3) this] i show ?thesis by simp
qed

lemma lookup_out:
  assumes "length (keys m) = length (psl m)" "length (data m) = length (psl m)"
    "k \<notin> fst ` entries m"
  shows "lookup m k = 0"
proof (rule lookup_miss, intro allI impI)
  fix i assume "i < length (psl m)" "psl m ! i \<noteq> 0"
  then have "(keys m ! i, data m ! i) \<in> entries m" by (auto simp: entries_def)
  with assms(3) show "keys m ! i \<noteq> k" by force
qed






lemma live_slots_cong: "psl m' = psl m \<Longrightarrow> live_slots m' = live_slots m"
  by (simp add: live_slots_def)


lemma empty_table:
  "live_slots \<lparr>keys = ks, data = ds, psl = replicate n 0, seed = sd, size_m = s, hashbits = nb\<rparr> = {}"
  "entries \<lparr>keys = ks, data = ds, psl = replicate n 0, seed = sd, size_m = s, hashbits = nb\<rparr> = {}"
  by (simp_all add: live_slots_def entries_def)

lemma live_count_filter:
  "card (live_slots m) = length (filter (\<lambda>i. psl m ! i \<noteq> 0) [0 ..< length (psl m)])"
proof -
  have "live_slots m = set (filter (\<lambda>i. psl m ! i \<noteq> 0) [0 ..< length (psl m)])"
    by (auto simp: live_slots_def)
  moreover have "card (set (filter (\<lambda>i. psl m ! i \<noteq> 0) [0 ..< length (psl m)]))
      = length (filter (\<lambda>i. psl m ! i \<noteq> 0) [0 ..< length (psl m)])"
    by (rule distinct_card) simp
  ultimately show ?thesis by (simp only:)
qed



lemma threshold_double:
  assumes "4 \<le> b"
  shows "(2::nat) ^ (b + 1) - 2 ^ (b + 1) div 8 = 2 * (2 ^ b - 2 ^ b div 8)"
proof -
  define c where "c = b - 3"
  have b: "b = c + 3" using assms by (simp add: c_def)
  show ?thesis unfolding b by (simp add: power_add)
qed

lemma insert_unfold:
  assumes "d \<noteq> 0"
  shows "nghttp3_map_insert calloc_ok m key d =
      (if \<not> must_grow m then map_option Returned (map_insert m key d)
       else if 63 < new_hashbits_of m \<or> \<not> calloc_ok then Some (Returned (NGHTTP3_ERR_NOMEM, m))
       else (case map_resize True m (new_hashbits_of m) of
               None \<Rightarrow> None
             | Some Aborted \<Rightarrow> Some Aborted
             | Some (Returned (rv, m')) \<Rightarrow> map_option Returned (map_insert m' key d)))"
proof -
  have nomem: "map_resize False m nb = Some (Returned (NGHTTP3_ERR_NOMEM, m))" for nb
    by (simp add: map_resize_def)
  have nz: "NGHTTP3_ERR_NOMEM \<noteq> 0" by (simp add: NGHTTP3_ERR_NOMEM_def)
  have ok: "map_resize True m nb = Some (Returned (rv, m')) \<Longrightarrow> rv = 0" for nb rv m'
    using map_resize_Returned[of True m nb rv m'] by simp
  show ?thesis
    using assms nomem nz
    by (cases calloc_ok)
       (auto simp: nghttp3_map_insert_def must_grow_def new_hashbits_of_def drop_bit_eq_div
          NGHTTP3_INITIAL_HASHBITS_def NGHTTP3_MAP_MAX_HASHBITS_def Let_def
          split: option.splits outcome.splits dest: ok)
qed

lemma entries_live_slots: "entries m = (\<lambda>i. (keys m ! i, data m ! i)) ` live_slots m"
  by (auto simp: entries_def live_slots_def)




lemma remove_stop:
  "psl_at m idx < p \<Longrightarrow>
   remove_body m msk k (idx, p) = Break (Some (NGHTTP3_ERR_INVALID_ARGUMENT, m))"
  by (simp add: remove_body_def psl_at_def)

lemma remove_found:
  "p \<le> psl_at m idx \<Longrightarrow> keys m ! idx = k \<Longrightarrow>
   remove_body m (2 ^ hashbits m - 1) k (idx, p)
     = Break (map_option (\<lambda>m'. (0, m'\<lparr>size_m := size_m m' - 1\<rparr>))
               (forever (shift_body (2 ^ hashbits m - 1)) (m, idx, (idx + 1) mod tablelen m)))"
  by (simp add: remove_body_def psl_at_def and_msk_Suc tablelen_def)

lemma remove_walk:
  "p \<le> psl_at m idx \<Longrightarrow> keys m ! idx \<noteq> k \<Longrightarrow>
   remove_body m (2 ^ hashbits m - 1) k (idx, p) = Continue ((idx + 1) mod tablelen m, p + 1)"
  by (simp add: remove_body_def psl_at_def and_msk_Suc tablelen_def)


lemma shift_stop:
  "psl_at m idx \<le> 1 \<Longrightarrow> shift_body msk (m, dest, idx) = Break (m\<lparr>psl := (psl m)[dest := 0]\<rparr>)"
  by (simp add: shift_body_def psl_at_def)

lemma shift_move:
  "2 \<le> psl_at m idx \<Longrightarrow>
   shift_body (2 ^ hashbits m - 1) (m, dest, idx)
     = Continue (map_set_entry m dest (keys m ! idx) (data m ! idx) (psl_at m idx - 1),
                 idx, (idx + 1) mod tablelen m)"
  by (simp add: shift_body_def psl_at_def and_msk_Suc tablelen_def)

lemma behind:
  assumes "dest < N" "idx = (dest + 1) mod N" "Suc s < (N::nat)"
  shows "(idx + s) mod N \<noteq> dest"
proof -
  have "(idx + s) mod N = (dest + 1 + s) mod N"
    unfolding assms(2) by (rule mod_add_left_eq)
  also have "dest + 1 + s = dest + Suc s" by simp
  finally show ?thesis using far_neq[of dest N "Suc s"] assms(1,3) by simp
qed



lemma empty_slot_exists:
  assumes "length (psl m) = tablelen m" "card (live_slots m) < tablelen m"
  shows "\<exists>e<tablelen m. psl_at m e = 0"
proof (rule ccontr)
  assume "\<not> ?thesis"
  then have "live_slots m = {..<tablelen m}" using assms(1) by (auto simp: live_slots_def psl_at_zero)
  with assms(2) show False by simp
qed


lemma lookup_absent: "k \<notin> fst ` entries m \<Longrightarrow> lookup m k = 0"
proof (rule lookup_miss, intro allI impI)
  fix i assume "k \<notin> fst ` entries m" "i < length (psl m)" "psl m ! i \<noteq> 0"
  then have "(keys m ! i, data m ! i) \<in> entries m" by (auto simp: entries_def)
  with \<open>k \<notin> fst ` entries m\<close> show "keys m ! i \<noteq> k" by force
qed

lemma find_inv:
  assumes "table_inv m"
  shows "nghttp3_map_find m k = Some (lookup m k)"
proof (cases "size_m m = 0")
  case True
  then have "live_slots m = {}" using assms by (simp add: table_inv_def)
  then have "entries m = {}" by (simp add: entries_live_slots)
  then have "lookup m k = 0" by (intro lookup_absent) simp
  with True show ?thesis by (simp add: nghttp3_map_find_def)
next
  case False
  then have "hashbits m \<noteq> 0" using assms by (auto simp: table_inv_def tablelen_def)
  then have "robin_hood m" using assms by (auto simp: table_inv_def)
  then show ?thesis using False by (rule find_correct)
qed


lemma within_Suc: "within n body s = Some r \<Longrightarrow> within (Suc n) body s = Some r"
proof (induction n arbitrary: s)
  case 0
  then show ?case by simp
next
  case (Suc n)
  show ?case
  proof (cases "body s")
    case (Continue s')
    with Suc.prems have "within n body s' = Some r" by simp
    then have "within (Suc n) body s' = Some r" by (rule Suc.IH)
    with Continue show ?thesis by simp
  next
    case (Break r')
    with Suc.prems show ?thesis by simp
  qed
qed

lemma within_mono: "within n body s = Some r \<Longrightarrow> n \<le> n' \<Longrightarrow> within n' body s = Some r"
proof (induction "n' - n" arbitrary: n')
  case 0
  then show ?case by simp
next
  case (Suc d)
  then obtain n'' where n'': "n' = Suc n''" "d = n'' - n" "n \<le> n''"
    by (cases n') auto
  with Suc have "within n'' body s = Some r" by blast
  then show ?case unfolding n''(1) by (rule within_Suc)
qed

lemma within_Break: "body s = Break r \<Longrightarrow> within (Suc n) body s = Some r"
  by simp

lemma within_Continue: "body s = Continue s' \<Longrightarrow> within (Suc n) body s = within n body s'"
  by simp

lemma psl_at_set_entry_other:
  "j \<noteq> i \<Longrightarrow> psl_at (map_set_entry m i k d p) j = psl_at m j"
  by (simp add: psl_at_def)

lemma arrays_ok_set_entry [simp]: "arrays_ok (map_set_entry m i k d p) = arrays_ok m"
  by (simp add: arrays_ok_def)

lemma live_slots_set_entry_le:
  "live_slots (map_set_entry m i k d p) \<subseteq> insert i (live_slots m)"
  by (auto simp: live_slots_def nth_list_update split: if_splits)

lemma card_live_set_entry_new:
  "card (live_slots (map_set_entry m i k d p)) \<le> card (live_slots m) + 1"
proof -
  have "card (live_slots (map_set_entry m i k d p)) \<le> card (insert i (live_slots m))"
    by (intro card_mono live_slots_set_entry_le) simp
  also have "\<dots> \<le> card (live_slots m) + 1" by (simp add: card_insert_if)
  finally show ?thesis .
qed

lemma card_live_set_entry_old:
  assumes "i \<in> live_slots m"
  shows "card (live_slots (map_set_entry m i k d p)) \<le> card (live_slots m)"
proof -
  have "live_slots (map_set_entry m i k d p) \<subseteq> live_slots m"
    using live_slots_set_entry_le[of m i k d p] assms by auto
  then show ?thesis by (intro card_mono) simp_all
qed

text \<open>The loop of \<^verbatim>\<open>map_insert\<close> ends at the latest at the first empty slot ahead.\<close>

lemma insert_loop_terminates:
  assumes "arrays_ok m" "idx < tablelen m"
    and "n < tablelen m" "psl_at m ((idx + n) mod tablelen m) = 0"
  shows "\<exists>rv m'. within (Suc n) (map_insert_body (2 ^ hashbits m - 1)) (m, idx, p, k, d) = Some (rv, m')
      \<and> same_shape m m'
      \<and> (rv = 0 \<and> size_m m' = (size_m m + 1) mod 2 ^ 64
            \<and> card (live_slots m') \<le> card (live_slots m) + 1
          \<or> rv = NGHTTP3_ERR_INVALID_ARGUMENT \<and> size_m m' = size_m m
            \<and> card (live_slots m') \<le> card (live_slots m))"
  using assms
proof (induction n arbitrary: m idx p k d)
  case 0
  then have empty: "psl_at m idx = 0" by simp
  let ?m' = "(map_set_entry m idx k d p)\<lparr>size_m := (size_m m + 1) mod 2 ^ 64\<rparr>"
  have "within (Suc 0) (map_insert_body (2 ^ hashbits m - 1)) (m, idx, p, k, d) = Some (0, ?m')"
    by (rule within_Break[of "map_insert_body (2 ^ hashbits m - 1)" "(m, idx, p, k, d)", OF body_place[OF empty]])
  moreover have "card (live_slots ?m') \<le> card (live_slots m) + 1"
    using card_live_set_entry_new[of m idx k d p] by simp
  ultimately show ?case by (intro exI[of _ 0] exI[of _ ?m']) simp
next
  case (Suc n)
  note ok = Suc.prems(1) and idxlt = Suc.prems(2) and gap = Suc.prems(3,4)
  let ?N = "tablelen m" and ?q = "psl_at m idx"
  let ?idx' = "(idx + 1) mod ?N"
  have len: "length (psl m) = ?N" using ok by (simp add: arrays_ok_def)
  have far: "(idx + Suc n) mod ?N \<noteq> idx" using far_neq[of idx ?N "Suc n"] idxlt gap(1) by simp
  have slot: "(?idx' + n) mod ?N = (idx + Suc n) mod ?N" by (rule step_slot)
  show ?case
  proof (cases "?q = 0")
    case True
    let ?m' = "(map_set_entry m idx k d p)\<lparr>size_m := (size_m m + 1) mod 2 ^ 64\<rparr>"
    have "within (Suc (Suc n)) (map_insert_body (2 ^ hashbits m - 1)) (m, idx, p, k, d) = Some (0, ?m')"
      by (rule within_Break[of "map_insert_body (2 ^ hashbits m - 1)" "(m, idx, p, k, d)", OF body_place[OF True]])
    moreover have "card (live_slots ?m') \<le> card (live_slots m) + 1"
      using card_live_set_entry_new[of m idx k d p] by simp
    ultimately show ?thesis by (intro exI[of _ 0] exI[of _ ?m']) simp
  next
    case live: False
    then have idxlive: "idx \<in> live_slots m" using idxlt len by (simp add: live_slots_def psl_at_zero)
    show ?thesis
    proof (cases "?q < p")
      case True
      let ?m2 = "map_set_entry m idx k d p"
      have e2: "psl_at ?m2 ((?idx' + n) mod tablelen ?m2) = 0"
        using gap(2) far slot by (simp add: psl_at_set_entry_other)
      from Suc.IH[of ?m2 ?idx' "?q + 1" "keys m ! idx" "data m ! idx"] ok e2 gap(1)
      obtain rv m' where r: "within (Suc n) (map_insert_body (2 ^ hashbits ?m2 - 1))
            (?m2, ?idx', ?q + 1, keys m ! idx, data m ! idx) = Some (rv, m')"
        "same_shape ?m2 m'"
        "rv = 0 \<and> size_m m' = (size_m ?m2 + 1) mod 2 ^ 64
            \<and> card (live_slots m') \<le> card (live_slots ?m2) + 1
          \<or> rv = NGHTTP3_ERR_INVALID_ARGUMENT \<and> size_m m' = size_m ?m2
            \<and> card (live_slots m') \<le> card (live_slots ?m2)"
        by auto
      have "within (Suc (Suc n)) (map_insert_body (2 ^ hashbits m - 1)) (m, idx, p, k, d) = Some (rv, m')"
        using within_Continue[of "map_insert_body (2 ^ hashbits m - 1)" "(m, idx, p, k, d)", OF body_swap[OF live True, of k d], of "Suc n"] r(1) by simp
      moreover have "same_shape m m'" using r(2) by (simp add: same_shape_def)
      moreover have "card (live_slots ?m2) \<le> card (live_slots m)"
        using idxlive by (rule card_live_set_entry_old)
      ultimately show ?thesis using r(3) by (intro exI[of _ rv] exI[of _ m']) auto
    next
      case False
      then have le: "p \<le> ?q" by simp
      show ?thesis
      proof (cases "keys m ! idx = k")
        case True
        have "within (Suc (Suc n)) (map_insert_body (2 ^ hashbits m - 1)) (m, idx, p, k, d)
            = Some (NGHTTP3_ERR_INVALID_ARGUMENT, m)"
          by (rule within_Break[of "map_insert_body (2 ^ hashbits m - 1)" "(m, idx, p, k, d)", OF body_dup[OF live le True]])
        then show ?thesis
          by (intro exI[of _ NGHTTP3_ERR_INVALID_ARGUMENT] exI[of _ m]) simp
      next
        case False
        have e2: "psl_at m ((?idx' + n) mod ?N) = 0" using gap(2) slot by simp
        from Suc.IH[of m ?idx' "p + 1" k d] ok e2 gap(1)
        obtain rv m' where r: "within (Suc n) (map_insert_body (2 ^ hashbits m - 1))
              (m, ?idx', p + 1, k, d) = Some (rv, m')"
          "same_shape m m'"
          "rv = 0 \<and> size_m m' = (size_m m + 1) mod 2 ^ 64
              \<and> card (live_slots m') \<le> card (live_slots m) + 1
            \<or> rv = NGHTTP3_ERR_INVALID_ARGUMENT \<and> size_m m' = size_m m
              \<and> card (live_slots m') \<le> card (live_slots m)"
          by auto
        have "within (Suc (Suc n)) (map_insert_body (2 ^ hashbits m - 1)) (m, idx, p, k, d) = Some (rv, m')"
          using within_Continue[of "map_insert_body (2 ^ hashbits m - 1)" "(m, idx, p, k, d)", OF body_walk[OF live le False, of d], of "Suc n"] r(1) by simp
        then show ?thesis using r(2,3) by (intro exI[of _ rv] exI[of _ m']) simp
      qed
    qed
  qed
qed

lemma find_stop: "psl_at m idx < p \<Longrightarrow> find_body m msk k (idx, p) = Break 0"
  by (simp add: find_body_def psl_at_def)

lemma find_hit:
  "p \<le> psl_at m idx \<Longrightarrow> keys m ! idx = k \<Longrightarrow> find_body m msk k (idx, p) = Break (data m ! idx)"
  by (simp add: find_body_def psl_at_def)

lemma find_walk:
  "p \<le> psl_at m idx \<Longrightarrow> keys m ! idx \<noteq> k \<Longrightarrow>
   find_body m (2 ^ hashbits m - 1) k (idx, p) = Continue ((idx + 1) mod tablelen m, p + 1)"
  by (simp add: find_body_def psl_at_def and_msk_Suc tablelen_def)

lemma find_terminates:
  assumes "1 \<le> p" "idx < tablelen m" "psl_at m ((idx + n) mod tablelen m) = 0"
  shows "\<exists>r. within (Suc n) (find_body m (2 ^ hashbits m - 1) k) (idx, p) = Some r"
  using assms
proof (induction n arbitrary: idx p)
  case 0
  then have "psl_at m idx < p" by simp
  then show ?case
    using within_Break[of "find_body m (2 ^ hashbits m - 1) k" "(idx, p)", OF find_stop] by blast
next
  case (Suc n)
  let ?B = "find_body m (2 ^ hashbits m - 1) k"
  show ?case
  proof (cases "psl_at m idx < p")
    case True
    then show ?thesis using within_Break[of ?B "(idx, p)", OF find_stop] by blast
  next
    case False
    then have le: "p \<le> psl_at m idx" by simp
    show ?thesis
    proof (cases "keys m ! idx = k")
      case True
      with le show ?thesis using within_Break[of ?B "(idx, p)", OF find_hit] by blast
    next
      case False
      have "psl_at m (((idx + 1) mod tablelen m + n) mod tablelen m) = 0"
        using Suc.prems(3) by (simp add: step_slot_Suc)
      then obtain r where "within (Suc n) ?B ((idx + 1) mod tablelen m, p + 1) = Some r"
        using Suc.IH[of "p + 1" "(idx + 1) mod tablelen m"] by auto
      then show ?thesis
        using within_Continue[of ?B "(idx, p)", OF find_walk[OF le False], of "Suc n"] by simp
    qed
  qed
qed

lemma remove_terminates:
  assumes "1 \<le> p" "idx < tablelen m" "psl_at m ((idx + n) mod tablelen m) = 0"
  shows "\<exists>r. within (Suc n) (remove_body m (2 ^ hashbits m - 1) k) (idx, p) = Some r
     \<and> (r = Some (NGHTTP3_ERR_INVALID_ARGUMENT, m)
        \<or> (\<exists>i<tablelen m. psl_at m i \<noteq> 0 \<and>
              r = map_option (\<lambda>m'. (0, m'\<lparr>size_m := size_m m' - 1\<rparr>))
                    (forever (shift_body (2 ^ hashbits m - 1)) (m, i, (i + 1) mod tablelen m))))"
  using assms
proof (induction n arbitrary: idx p)
  case 0
  then have "psl_at m idx < p" by simp
  then show ?case
    using within_Break[of "remove_body m (2 ^ hashbits m - 1) k" "(idx, p)", OF remove_stop]
    by blast
next
  case (Suc n)
  let ?B = "remove_body m (2 ^ hashbits m - 1) k"
  show ?case
  proof (cases "psl_at m idx < p")
    case True
    then show ?thesis using within_Break[of ?B "(idx, p)", OF remove_stop] by blast
  next
    case False
    then have le: "p \<le> psl_at m idx" by simp
    then have live: "psl_at m idx \<noteq> 0" using Suc.prems(1) by simp
    show ?thesis
    proof (cases "keys m ! idx = k")
      case True
      have "within (Suc (Suc n)) ?B (idx, p)
          = Some (map_option (\<lambda>m'. (0, m'\<lparr>size_m := size_m m' - 1\<rparr>))
               (forever (shift_body (2 ^ hashbits m - 1)) (m, idx, (idx + 1) mod tablelen m)))"
        by (rule within_Break[of ?B "(idx, p)", OF remove_found[OF le True]])
      then show ?thesis using live Suc.prems(2) by blast
    next
      case False
      have "psl_at m (((idx + 1) mod tablelen m + n) mod tablelen m) = 0"
        using Suc.prems(3) by (simp add: step_slot_Suc)
      then obtain r where r: "within (Suc n) ?B ((idx + 1) mod tablelen m, p + 1) = Some r"
        "r = Some (NGHTTP3_ERR_INVALID_ARGUMENT, m)
        \<or> (\<exists>i<tablelen m. psl_at m i \<noteq> 0 \<and>
              r = map_option (\<lambda>m'. (0, m'\<lparr>size_m := size_m m' - 1\<rparr>))
                    (forever (shift_body (2 ^ hashbits m - 1)) (m, i, (i + 1) mod tablelen m)))"
        using Suc.IH[of "p + 1" "(idx + 1) mod tablelen m"] by auto
      have "within (Suc (Suc n)) ?B (idx, p) = Some r"
        using within_Continue[of ?B "(idx, p)", OF remove_walk[OF le False], of "Suc n"] r(1)
        by simp
      then show ?thesis using r(2) by blast
    qed
  qed
qed

lemma shift_terminates:
  assumes "length (psl m) = tablelen m" "dest < tablelen m" "idx = (dest + 1) mod tablelen m"
    "psl_at m dest \<noteq> 0"
    and "Suc n < tablelen m" "psl_at m ((idx + n) mod tablelen m) \<le> 1"
  shows "\<exists>m'. within (Suc n) (shift_body (2 ^ hashbits m - 1)) (m, dest, idx) = Some m'
      \<and> same_shape m m' \<and> size_m m' = size_m m
      \<and> card (live_slots m') + 1 = card (live_slots m)"
  using assms
proof (induction n arbitrary: m dest idx)
  case 0
  let ?m' = "m\<lparr>psl := (psl m)[dest := 0]\<rparr>"
  have idxlt: "idx < tablelen m" using "0.prems"(3) by simp
  then have stop: "psl_at m idx \<le> 1" using "0.prems"(6) by simp
  have run: "within (Suc 0) (shift_body (2 ^ hashbits m - 1)) (m, dest, idx) = Some ?m'"
    by (rule within_Break[of "shift_body (2 ^ hashbits m - 1)" "(m, dest, idx)",
          OF shift_stop[OF stop]])
  have ls: "live_slots ?m' = live_slots m - {dest}"
    using "0.prems"(1,2) by (auto simp: live_slots_def nth_list_update)
  have "dest \<in> live_slots m" using "0.prems"(1,2,4) by (simp add: live_slots_def psl_at_zero)
  then have "card (live_slots ?m') + 1 = card (live_slots m)"
    unfolding ls using card_Suc_Diff1[of "live_slots m" dest] by simp
  then show ?case using run by (intro exI[of _ ?m']) (simp add: same_shape_def)
next
  case (Suc n)
  note len = Suc.prems(1) and dest = Suc.prems(2,3,4) and gap = Suc.prems(5,6)
  let ?N = "tablelen m" and ?q = "psl_at m idx"
  let ?B = "shift_body (2 ^ hashbits m - 1)"
  have idxlt: "idx < ?N" using dest(2) by simp
  have destlive: "dest \<in> live_slots m" using len dest(1,3) by (simp add: live_slots_def psl_at_zero)
  show ?case
  proof (cases "?q \<le> 1")
    case True
    let ?m' = "m\<lparr>psl := (psl m)[dest := 0]\<rparr>"
    have run: "within (Suc (Suc n)) ?B (m, dest, idx) = Some ?m'"
      by (rule within_Break[of ?B "(m, dest, idx)", OF shift_stop[OF True]])
    have ls: "live_slots ?m' = live_slots m - {dest}"
      using len dest(1) by (auto simp: live_slots_def nth_list_update)
    have "card (live_slots ?m') + 1 = card (live_slots m)"
      unfolding ls using destlive card_Suc_Diff1[of "live_slots m" dest] by simp
    then show ?thesis using run by (intro exI[of _ ?m']) (simp add: same_shape_def)
  next
    case False
    then have q2: "2 \<le> ?q" by simp
    define qm where "qm = ?q - 1"
    have qm: "1 \<le> qm" "qm \<le> 255" using q2 psl_at_le[of m idx] by (simp_all add: qm_def)
    let ?m2 = "map_set_entry m dest (keys m ! idx) (data m ! idx) qm"
    let ?idx' = "(idx + 1) mod ?N"
    have idx_ne: "idx \<noteq> dest" using behind[OF dest(1,2), of 0] gap(1) idxlt by simp
    have P2: "psl_at ?m2 j = (if j = dest then qm else psl_at m j)" for j
      using psl_at_set_entry[of dest m qm "keys m ! idx" "data m ! idx" j] dest(1) len qm by simp
    have far: "(idx + Suc n) mod ?N \<noteq> dest"
      using behind[OF dest(1,2), of "Suc n"] gap(1) by simp
    have slot: "(?idx' + n) mod ?N = (idx + Suc n) mod ?N" by (rule step_slot)
    have p1: "length (psl ?m2) = tablelen ?m2" using len by simp
    have p2: "idx < tablelen ?m2" using idxlt by simp
    have p3: "?idx' = (idx + 1) mod tablelen ?m2" by simp
    have p4: "psl_at ?m2 idx \<noteq> 0" using q2 idx_ne by (simp add: P2)
    have p5: "Suc n < tablelen ?m2" using gap(1) by simp
    have p6: "psl_at ?m2 ((?idx' + n) mod tablelen ?m2) \<le> 1"
      using gap(2) far slot by (simp add: P2)
    from Suc.IH[OF p1 p2 p3 p4 p5 p6]
    obtain m' where m': "within (Suc n) (shift_body (2 ^ hashbits ?m2 - 1)) (?m2, idx, ?idx') = Some m'"
      "same_shape ?m2 m'" "size_m m' = size_m ?m2"
      "card (live_slots m') + 1 = card (live_slots ?m2)"
      by blast
    have run: "within (Suc (Suc n)) ?B (m, dest, idx) = Some m'"
      using within_Continue[of ?B "(m, dest, idx)", OF shift_move[OF q2], of "Suc n"] m'(1)
      by (simp add: qm_def)
    have ls2: "live_slots ?m2 = live_slots m"
      using live_slots_set_entry[of dest m qm "keys m ! idx" "data m ! idx"] dest(1) len qm
        destlive by auto
    have "same_shape m m'" using m'(2) by (simp add: same_shape_def)
    then show ?thesis using run m'(3,4) ls2 by (intro exI[of _ m']) simp
  qed
qed

lemma arrays_ok_shape: "same_shape m m' \<Longrightarrow> arrays_ok m \<Longrightarrow> arrays_ok m'"
  by (simp add: same_shape_def arrays_ok_def tablelen_def)

lemma tablelen_shape: "same_shape m m' \<Longrightarrow> tablelen m' = tablelen m"
  by (simp add: same_shape_def tablelen_def)

lemma tablelen_le: "hashbits m \<le> 63 \<Longrightarrow> tablelen m \<le> 2 ^ 63"
  unfolding tablelen_def by (rule power_increasing) simp_all

lemma map_insert_terminates:
  assumes ok: "arrays_ok m" and room: "card (live_slots m) < tablelen m"
  shows "\<exists>rv m'. map_insert m k d = Some (rv, m')
      \<and> within (tablelen m) (map_insert_body (2 ^ hashbits m - 1)) (m, map_index m k, 1, k, d)
          = Some (rv, m')
      \<and> same_shape m m'
      \<and> (rv = 0 \<and> size_m m' = (size_m m + 1) mod 2 ^ 64
            \<and> card (live_slots m') \<le> card (live_slots m) + 1
          \<or> rv = NGHTTP3_ERR_INVALID_ARGUMENT \<and> size_m m' = size_m m
            \<and> card (live_slots m') \<le> card (live_slots m))"
proof -
  let ?N = "tablelen m" and ?h = "map_index m k"
  let ?B = "map_insert_body (2 ^ hashbits m - 1)"
  have len: "length (psl m) = ?N" using ok by (simp add: arrays_ok_def)
  have h: "?h < ?N" using ok by (simp add: arrays_ok_def map_index_less)
  from empty_slot_exists[OF len room] obtain e where e: "e < ?N" "psl_at m e = 0" by blast
  let ?n = "(e + ?N - ?h) mod ?N"
  have n: "?n < ?N" by simp
  have "psl_at m ((?h + ?n) mod ?N) = 0" using slot_reach[OF h e(1)] e(2) by simp
  from insert_loop_terminates[OF ok h n this, of 1 k d]
  obtain rv m' where r: "within (Suc ?n) ?B (m, ?h, 1, k, d) = Some (rv, m')" "same_shape m m'"
    "rv = 0 \<and> size_m m' = (size_m m + 1) mod 2 ^ 64
            \<and> card (live_slots m') \<le> card (live_slots m) + 1
          \<or> rv = NGHTTP3_ERR_INVALID_ARGUMENT \<and> size_m m' = size_m m
            \<and> card (live_slots m') \<le> card (live_slots m)"
    by blast
  have "Suc ?n \<le> ?N" using n by linarith
  with r(1) have w: "within ?N ?B (m, ?h, 1, k, d) = Some (rv, m')" by (rule within_mono)
  then have "map_insert m k d = Some (rv, m')"
    unfolding map_insert_def by (rule within_forever)
  with w r(2,3) show ?thesis by blast
qed

lemma resize_loop_terminates:
  assumes "arrays_ok nm" "card (live_slots nm) + length is < tablelen nm"
  shows "\<exists>out. map_resize_loop m is nm = Some out
     \<and> (\<forall>nm'. out = Returned nm' \<longrightarrow> same_shape nm nm'
           \<and> card (live_slots nm') \<le> card (live_slots nm) + length (filter (\<lambda>i. psl m ! i \<noteq> 0) is))"
  using assms
proof (induction "is" arbitrary: nm)
  case Nil
  then show ?case by simp
next
  case (Cons i "is")
  show ?case
  proof (cases "psl m ! i = 0")
    case True
    from Cons.prems have "card (live_slots nm) + length is < tablelen nm" by simp
    from Cons.IH[OF Cons.prems(1) this] True show ?thesis by simp
  next
    case live: False
    have room: "card (live_slots nm) < tablelen nm" using Cons.prems(2) by simp
    from map_insert_terminates[OF Cons.prems(1) room, of "keys m ! i" "data m ! i"]
    obtain rv nm1 where r: "map_insert nm (keys m ! i) (data m ! i) = Some (rv, nm1)"
      "same_shape nm nm1"
      "rv = 0 \<and> card (live_slots nm1) \<le> card (live_slots nm) + 1
       \<or> rv = NGHTTP3_ERR_INVALID_ARGUMENT"
      by blast
    show ?thesis
    proof (cases "rv = 0")
      case False
      with r(1) live have "map_resize_loop m (i # is) nm = Some Aborted" by simp
      then show ?thesis by simp
    next
      case True
      with r(3) have c: "card (live_slots nm1) \<le> card (live_slots nm) + 1"
        by (simp add: NGHTTP3_ERR_INVALID_ARGUMENT_def)
      have ok1: "arrays_ok nm1" using r(2) Cons.prems(1) by (rule arrays_ok_shape)
      have "card (live_slots nm1) + length is < tablelen nm1"
        using c Cons.prems(2) tablelen_shape[OF r(2)] by simp
      from Cons.IH[OF ok1 this] obtain out where out: "map_resize_loop m is nm1 = Some out"
        "\<forall>nm'. out = Returned nm' \<longrightarrow> same_shape nm1 nm'
           \<and> card (live_slots nm') \<le> card (live_slots nm1) + length (filter (\<lambda>i. psl m ! i \<noteq> 0) is)"
        by blast
      have "map_resize_loop m (i # is) nm = Some out" using live r(1) True out(1) by simp
      moreover have "\<forall>nm'. out = Returned nm' \<longrightarrow> same_shape nm nm'
           \<and> card (live_slots nm') \<le> card (live_slots nm)
                + length (filter (\<lambda>i. psl m ! i \<noteq> 0) (i # is))"
      proof (intro allI impI)
        fix nm' assume "out = Returned nm'"
        with out(2) have "same_shape nm1 nm'"
          "card (live_slots nm') \<le> card (live_slots nm1) + length (filter (\<lambda>i. psl m ! i \<noteq> 0) is)"
          by simp_all
        with r(2) c live show "same_shape nm nm'
           \<and> card (live_slots nm') \<le> card (live_slots nm)
                + length (filter (\<lambda>i. psl m ! i \<noteq> 0) (i # is))"
          by (auto intro: same_shape_trans)
      qed
      ultimately show ?thesis by blast
    qed
  qed
qed

lemma wf_allocated:
  assumes "well_formed m" "size_m m \<noteq> 0 \<or> hashbits m \<noteq> 0"
  shows "4 \<le> hashbits m" "arrays_ok m" "card (live_slots m) < tablelen m"
proof -
  have lt: "size_m m < tablelen m - tablelen m div 8" and le: "card (live_slots m) \<le> size_m m"
    using assms(1) by (simp_all add: well_formed_def)
  have "hashbits m \<noteq> 0"
  proof
    assume "hashbits m = 0"
    then have "tablelen m = 1" by (simp add: tablelen_def)
    with lt assms(2) \<open>hashbits m = 0\<close> show False by simp
  qed
  with assms(1) show "4 \<le> hashbits m" "arrays_ok m" by (auto simp: well_formed_def)
  show "card (live_slots m) < tablelen m" using lt le by linarith
qed

lemma map_resize_terminates:
  assumes wf: "well_formed m" and nb: "new_hashbits_of m \<le> 63"
  shows "\<exists>out. map_resize True m (new_hashbits_of m) = Some out
     \<and> (\<forall>rv m'. out = Returned (rv, m') \<longrightarrow> rv = 0 \<and> arrays_ok m'
           \<and> hashbits m' = new_hashbits_of m \<and> size_m m' = size_m m
           \<and> card (live_slots m') \<le> size_m m)"
proof -
  let ?nb = "new_hashbits_of m"
  let ?new = "\<lparr>keys = replicate (2 ^ ?nb) 0, data = replicate (2 ^ ?nb) 0,
                psl = replicate (2 ^ ?nb) 0, seed = seed m, size_m = 0, hashbits = ?nb\<rparr>"
  have nb1: "1 \<le> ?nb" by (simp add: new_hashbits_of_def)
  have oknew: "arrays_ok ?new" using nb1 nb by (simp add: arrays_ok_def tablelen_def)
  have shape_ok: "arrays_ok (m\<lparr>keys := keys nm, data := data nm, psl := psl nm, hashbits := ?nb\<rparr>)"
    if "same_shape ?new nm" for nm
    using that nb1 nb by (simp add: arrays_ok_def tablelen_def same_shape_def)
  show ?thesis
  proof (cases "size_m m = 0")
    case True
    let ?m' = "m\<lparr>keys := keys ?new, data := data ?new, psl := psl ?new, hashbits := ?nb\<rparr>"
    have "map_resize True m ?nb = Some (Returned (0, ?m'))"
      using True by (simp add: map_resize_def)
    moreover have "arrays_ok ?m'" by (rule shape_ok) simp
    moreover have "live_slots ?m' = {}" by (simp add: live_slots_def)
    ultimately show ?thesis by simp
  next
    case False
    from wf_allocated[OF wf] False have b: "4 \<le> hashbits m" and ok: "arrays_ok m" by simp_all
    have len: "length (psl m) = tablelen m" using ok by (simp add: arrays_ok_def)
    have nbeq: "?nb = hashbits m + 1" using b by (simp add: new_hashbits_of_def)
    have "card (live_slots ?new) + length [0 ..< tablelen m] < tablelen ?new"
      by (simp add: empty_table tablelen_def nbeq)
    from resize_loop_terminates[OF oknew this, of m]
    obtain out where out: "map_resize_loop m [0 ..< tablelen m] ?new = Some out"
      "\<forall>nm'. out = Returned nm' \<longrightarrow> same_shape ?new nm'
           \<and> card (live_slots nm') \<le> card (live_slots ?new)
                + length (filter (\<lambda>i. psl m ! i \<noteq> 0) [0 ..< tablelen m])"
      by blast
    show ?thesis
    proof (cases out)
      case Aborted
      with out(1) False have "map_resize True m ?nb = Some Aborted" by (simp add: map_resize_def)
      then show ?thesis by simp
    next
      case (Returned nm')
      let ?m' = "m\<lparr>keys := keys nm', data := data nm', psl := psl nm', hashbits := ?nb\<rparr>"
      from out(2) Returned have sh: "same_shape ?new nm'"
        and c: "card (live_slots nm') \<le> card (live_slots ?new)
                + length (filter (\<lambda>i. psl m ! i \<noteq> 0) [0 ..< tablelen m])"
        by simp_all
      have res: "map_resize True m ?nb = Some (Returned (0, ?m'))"
        using out(1) Returned False by (simp add: map_resize_def)
      have "card (live_slots nm') \<le> card (live_slots m)"
        using c len by (simp add: empty_table live_count_filter)
      moreover have "card (live_slots m) \<le> size_m m" using wf by (simp add: well_formed_def)
      moreover have "live_slots ?m' = live_slots nm'" by (rule live_slots_cong) simp
      moreover have "hashbits ?m' = ?nb" by simp
      ultimately show ?thesis using res shape_ok[OF sh] by simp
    qed
  qed
qed

lemma insert_place:
  assumes sz: "(size_m m + 1) mod 2 ^ 64 = size_m m + 1"
    and m1: "arrays_ok m1" "4 \<le> hashbits m1" "hashbits m1 \<le> 63" "size_m m1 = size_m m"
      "card (live_slots m1) \<le> size_m m" "size_m m + 1 < tablelen m1 - tablelen m1 div 8"
  shows "\<exists>out. map_option Returned (map_insert m1 k d) = Some out
     \<and> (\<forall>rv m'. out = Returned (rv, m') \<longrightarrow> well_formed m'
           \<and> (rv = 0 \<longrightarrow> size_m m' = size_m m + 1) \<and> (rv \<noteq> 0 \<longrightarrow> size_m m' = size_m m))"
proof -
  have room: "card (live_slots m1) < tablelen m1" using m1(5,6) by linarith
  from map_insert_terminates[OF m1(1) room, of k d]
  obtain rv m' where r: "map_insert m1 k d = Some (rv, m')" "same_shape m1 m'"
    "rv = 0 \<and> size_m m' = (size_m m1 + 1) mod 2 ^ 64
          \<and> card (live_slots m') \<le> card (live_slots m1) + 1
        \<or> rv = NGHTTP3_ERR_INVALID_ARGUMENT \<and> size_m m' = size_m m1
          \<and> card (live_slots m') \<le> card (live_slots m1)"
    by blast
  have ok': "arrays_ok m'" using r(2) m1(1) by (rule arrays_ok_shape)
  have tl: "tablelen m' = tablelen m1" using r(2) by (rule tablelen_shape)
  have hb: "hashbits m' = hashbits m1" using r(2) by (simp add: same_shape_def)
  have nz: "NGHTTP3_ERR_INVALID_ARGUMENT \<noteq> 0" by (simp add: NGHTTP3_ERR_INVALID_ARGUMENT_def)
  have wfI: "well_formed m'" if "card (live_slots m') \<le> size_m m'"
    "size_m m' < tablelen m1 - tablelen m1 div 8"
    unfolding well_formed_def tl hb using that ok' m1(2,3) by blast
  have "well_formed m' \<and> (rv = 0 \<longrightarrow> size_m m' = size_m m + 1) \<and> (rv \<noteq> 0 \<longrightarrow> size_m m' = size_m m)"
    using r(3)
  proof
    assume a: "rv = 0 \<and> size_m m' = (size_m m1 + 1) mod 2 ^ 64
          \<and> card (live_slots m') \<le> card (live_slots m1) + 1"
    from a have "size_m m' = (size_m m1 + 1) mod 2 ^ 64" by blast
    then have s: "size_m m' = size_m m + 1" unfolding m1(4) sz .
    from a have "card (live_slots m') \<le> card (live_slots m1) + 1" by blast
    with m1(5) s have c: "card (live_slots m') \<le> size_m m'" by linarith
    from m1(6) s have "size_m m' < tablelen m1 - tablelen m1 div 8" by linarith
    with c have "well_formed m'" by (rule wfI)
    moreover from a have "rv = 0" by blast
    ultimately show ?thesis using s by blast
  next
    assume a: "rv = NGHTTP3_ERR_INVALID_ARGUMENT \<and> size_m m' = size_m m1
          \<and> card (live_slots m') \<le> card (live_slots m1)"
    from a m1(4) have s: "size_m m' = size_m m" by simp
    from a have "card (live_slots m') \<le> card (live_slots m1)" by blast
    with m1(5) s have c: "card (live_slots m') \<le> size_m m'" by linarith
    from m1(6) s have "size_m m' < tablelen m1 - tablelen m1 div 8" by linarith
    with c have "well_formed m'" by (rule wfI)
    moreover from a nz have "rv \<noteq> 0" by simp
    ultimately show ?thesis using s by blast
  qed
  with r(1) show ?thesis by simp
qed

lemma size_no_wrap:
  assumes "well_formed m"
  shows "(size_m m + 1) mod 2 ^ 64 = size_m m + 1"
proof -
  have b63: "hashbits m \<le> 63" and thr: "size_m m < tablelen m - tablelen m div 8"
    using assms by (simp_all add: well_formed_def)
  have "tablelen m \<le> 2 ^ 63" using b63 by (rule tablelen_le)
  with thr have "size_m m < 2 ^ 63" by linarith
  then have "size_m m + 1 < 2 ^ 64" by simp
  then show ?thesis by (rule mod_less)
qed

lemma insert_wf:
  assumes wf: "well_formed m" and d: "d \<noteq> 0"
  shows "\<exists>out. nghttp3_map_insert calloc_ok m k d = Some out
     \<and> (\<forall>rv m'. out = Returned (rv, m') \<longrightarrow> well_formed m'
           \<and> (rv = 0 \<longrightarrow> size_m m' = size_m m + 1) \<and> (rv \<noteq> 0 \<longrightarrow> size_m m' = size_m m))"
proof -
  have b63: "hashbits m \<le> 63" and thr: "size_m m < tablelen m - tablelen m div 8"
    and cl: "card (live_slots m) \<le> size_m m"
    using wf by (simp_all add: well_formed_def)
  note sz = size_no_wrap[OF wf]
  note place = insert_place[OF sz, of _ k d]
  show ?thesis
  proof (cases "must_grow m")
    case False
    then have lt: "size_m m + 1 < tablelen m - tablelen m div 8"
      using sz by (simp add: must_grow_def)
    have "size_m m \<noteq> 0 \<or> hashbits m \<noteq> 0"
    proof (rule ccontr)
      assume "\<not> ?thesis"
      then have "tablelen m = 1" by (simp add: tablelen_def)
      with lt show False by simp
    qed
    from wf_allocated[OF wf this] have "4 \<le> hashbits m" "arrays_ok m" by simp_all
    from place[OF this(2,1) b63 refl cl lt] show ?thesis
      using insert_unfold[OF d, of calloc_ok m k] False by simp
  next
    case True
    show ?thesis
    proof (cases "63 < new_hashbits_of m \<or> \<not> calloc_ok")
      case nomem: True
      then have "nghttp3_map_insert calloc_ok m k d = Some (Returned (NGHTTP3_ERR_NOMEM, m))"
        using insert_unfold[OF d, of calloc_ok m k] True by simp
      then show ?thesis using wf by (simp add: NGHTTP3_ERR_NOMEM_def)
    next
      case False
      then have nb: "new_hashbits_of m \<le> 63" by simp
      from map_resize_terminates[OF wf nb] obtain out where
        out: "map_resize True m (new_hashbits_of m) = Some out"
        "\<forall>rv m'. out = Returned (rv, m') \<longrightarrow> rv = 0 \<and> arrays_ok m'
           \<and> hashbits m' = new_hashbits_of m \<and> size_m m' = size_m m
           \<and> card (live_slots m') \<le> size_m m"
        by blast
      show ?thesis
      proof (cases out)
        case Aborted
        then have "nghttp3_map_insert calloc_ok m k d = Some Aborted"
          using insert_unfold[OF d, of calloc_ok m k] True False out(1) by simp
        then show ?thesis by simp
      next
        case (Returned r)
        obtain rv m1 where r: "r = (rv, m1)" by (cases r)
        with out(2) Returned have m1: "arrays_ok m1" "hashbits m1 = new_hashbits_of m"
          "size_m m1 = size_m m" "card (live_slots m1) \<le> size_m m"
          by simp_all
        have b4: "4 \<le> hashbits m1" using m1(2) wf by (auto simp: new_hashbits_of_def well_formed_def)
        have thr': "size_m m + 1 < tablelen m1 - tablelen m1 div 8"
        proof (cases "hashbits m = 0")
          case True
          then have "tablelen m = 1" by (simp add: tablelen_def)
          with thr have "size_m m = 0" by simp
          moreover have "tablelen m1 = 16" using True m1(2) by (simp add: tablelen_def new_hashbits_of_def)
          ultimately show ?thesis by simp
        next
          case False
          then have b: "4 \<le> hashbits m" using wf by (auto simp: well_formed_def)
          have "tablelen m1 - tablelen m1 div 8 = 2 * (tablelen m - tablelen m div 8)"
            using threshold_double[OF b] False m1(2) by (simp add: tablelen_def new_hashbits_of_def)
          with thr show ?thesis by simp
        qed
        have b63': "hashbits m1 \<le> 63" using m1(2) nb by simp
        have "nghttp3_map_insert calloc_ok m k d = map_option Returned (map_insert m1 k d)"
          using insert_unfold[OF d, of calloc_ok m k] True False out(1) Returned r by simp
        with place[OF m1(1) b4 b63' m1(3,4) thr'] show ?thesis by simp
      qed
    qed
  qed
qed

lemma gap_behind:
  fixes N i e :: nat
  assumes "i < N" "e < N" "e \<noteq> i"
  shows "Suc ((e + N - (i + 1) mod N) mod N) < N"
proof (rule ccontr)
  let ?idx = "(i + 1) mod N"
  let ?t0 = "(e + N - ?idx) mod N"
  assume "\<not> Suc ?t0 < N"
  moreover have "?t0 < N" using assms(1) by simp
  ultimately have eq: "?t0 = N - 1" by linarith
  have idxlt: "?idx < N" using assms(1) by simp
  have "(?idx + ?t0) mod N = e" using idxlt assms(2) by (rule slot_reach)
  moreover have "(?idx + (N - 1)) mod N = (i + 1 + (N - 1)) mod N"
    by (rule mod_add_left_eq)
  moreover have "i + 1 + (N - 1) = i + N" using assms(1) by simp
  ultimately have "e = i" using eq assms(1) by simp
  with assms(3) show False by simp
qed

lemma shift_from_live:
  assumes ok: "arrays_ok m" and room: "card (live_slots m) < tablelen m"
    and i: "i < tablelen m" "psl_at m i \<noteq> 0"
  shows "\<exists>m'. within (tablelen m) (shift_body (2 ^ hashbits m - 1)) (m, i, (i + 1) mod tablelen m) = Some m'
      \<and> same_shape m m' \<and> size_m m' = size_m m
      \<and> card (live_slots m') + 1 = card (live_slots m)"
proof -
  let ?N = "tablelen m" and ?idx = "(i + 1) mod tablelen m"
  have len: "length (psl m) = ?N" using ok by (simp add: arrays_ok_def)
  from empty_slot_exists[OF len room] obtain e where e: "e < ?N" "psl_at m e = 0" by blast
  have ei: "e \<noteq> i" using e i by auto
  let ?n = "(e + ?N - ?idx) mod ?N"
  have n: "Suc ?n < ?N" using i(1) e(1) ei by (rule gap_behind)
  have idxlt: "?idx < ?N" by simp
  have "psl_at m ((?idx + ?n) mod ?N) \<le> 1" using slot_reach[OF idxlt e(1)] e(2) by simp
  from shift_terminates[OF len i(1) refl i(2) n this]
  obtain m' where m': "within (Suc ?n) (shift_body (2 ^ hashbits m - 1)) (m, i, ?idx) = Some m'"
    "same_shape m m'" "size_m m' = size_m m" "card (live_slots m') + 1 = card (live_slots m)"
    by blast
  have "Suc ?n \<le> ?N" using n by linarith
  with m'(1) have "within ?N (shift_body (2 ^ hashbits m - 1)) (m, i, ?idx) = Some m'"
    by (rule within_mono)
  with m'(2-) show ?thesis by blast
qed

lemma remove_search_within:
  assumes ok: "arrays_ok m" and room: "card (live_slots m) < tablelen m"
  shows "\<exists>r. within (tablelen m) (remove_body m (2 ^ hashbits m - 1) k) (map_index m k, 1) = Some r
     \<and> (r = Some (NGHTTP3_ERR_INVALID_ARGUMENT, m)
        \<or> (\<exists>i<tablelen m. psl_at m i \<noteq> 0 \<and>
              r = map_option (\<lambda>m'. (0, m'\<lparr>size_m := size_m m' - 1\<rparr>))
                    (forever (shift_body (2 ^ hashbits m - 1)) (m, i, (i + 1) mod tablelen m))))"
proof -
  let ?N = "tablelen m" and ?h = "map_index m k"
  have len: "length (psl m) = ?N" using ok by (simp add: arrays_ok_def)
  have h: "?h < ?N" using ok by (simp add: arrays_ok_def map_index_less)
  from empty_slot_exists[OF len room] obtain e where e: "e < ?N" "psl_at m e = 0" by blast
  let ?n = "(e + ?N - ?h) mod ?N"
  have "psl_at m ((?h + ?n) mod ?N) = 0" using slot_reach[OF h e(1)] e(2) by simp
  from remove_terminates[OF _ h this, of 1 k]
  obtain r where r: "within (Suc ?n) (remove_body m (2 ^ hashbits m - 1) k) (?h, 1) = Some r"
    "r = Some (NGHTTP3_ERR_INVALID_ARGUMENT, m)
        \<or> (\<exists>i<tablelen m. psl_at m i \<noteq> 0 \<and>
              r = map_option (\<lambda>m'. (0, m'\<lparr>size_m := size_m m' - 1\<rparr>))
                    (forever (shift_body (2 ^ hashbits m - 1)) (m, i, (i + 1) mod tablelen m)))"
    by auto
  have "?n < ?N" by simp
  then have "Suc ?n \<le> ?N" by linarith
  with r(1) have "within ?N (remove_body m (2 ^ hashbits m - 1) k) (?h, 1) = Some r"
    by (rule within_mono)
  with r(2) show ?thesis by blast
qed

lemma find_search_within:
  assumes ok: "arrays_ok m" and room: "card (live_slots m) < tablelen m"
  shows "\<exists>r. within (tablelen m) (find_body m (2 ^ hashbits m - 1) k) (map_index m k, 1) = Some r"
proof -
  let ?N = "tablelen m" and ?h = "map_index m k"
  have len: "length (psl m) = ?N" using ok by (simp add: arrays_ok_def)
  have h: "?h < ?N" using ok by (simp add: arrays_ok_def map_index_less)
  from empty_slot_exists[OF len room] obtain e where e: "e < ?N" "psl_at m e = 0" by blast
  let ?n = "(e + ?N - ?h) mod ?N"
  have "psl_at m ((?h + ?n) mod ?N) = 0" using slot_reach[OF h e(1)] e(2) by simp
  from find_terminates[OF _ h this, of 1 k]
  obtain r where r: "within (Suc ?n) (find_body m (2 ^ hashbits m - 1) k) (?h, 1) = Some r"
    by auto
  have "?n < ?N" by simp
  then have "Suc ?n \<le> ?N" by linarith
  with r have "within ?N (find_body m (2 ^ hashbits m - 1) k) (?h, 1) = Some r"
    by (rule within_mono)
  then show ?thesis ..
qed

lemma wf_shrink:
  assumes wf: "well_formed m" and nz: "size_m m \<noteq> 0"
    and sh: "same_shape m m'" and sz: "size_m m' = size_m m"
    and c: "card (live_slots m') + 1 = card (live_slots m)"
  shows "well_formed (m'\<lparr>size_m := size_m m' - 1\<rparr>)"
proof -
  let ?m'' = "m'\<lparr>size_m := size_m m' - 1\<rparr>"
  from wf_allocated[OF wf] nz have b4: "4 \<le> hashbits m" and ok: "arrays_ok m"
    by simp_all
  have facts: "hashbits m \<le> 63" "card (live_slots m) \<le> size_m m"
    "size_m m < tablelen m - tablelen m div 8"
    using wf by (simp_all add: well_formed_def)
  have ok': "arrays_ok m'" using sh ok by (rule arrays_ok_shape)
  have hb: "hashbits ?m'' = hashbits m" using sh by (simp add: same_shape_def)
  have tl: "tablelen ?m'' = tablelen m" using hb by (simp add: tablelen_def)
  have ok'': "arrays_ok ?m''" using ok' by (simp add: arrays_ok_def tablelen_def)
  have ls: "live_slots ?m'' = live_slots m'" by simp
  have s'': "size_m ?m'' = size_m m - 1" using sz by simp
  have c'': "card (live_slots ?m'') \<le> size_m ?m''"
    unfolding ls s'' using c facts(2) by linarith
  have t'': "size_m ?m'' < tablelen m - tablelen m div 8"
    unfolding s'' using facts(3) by linarith
  show ?thesis
    unfolding well_formed_def tl hb using facts(1) c'' t'' b4 ok'' by blast
qed

lemma remove_wf:
  assumes wf: "well_formed m"
  shows "\<exists>rv m'. nghttp3_map_remove m k = Some (rv, m') \<and> well_formed m'
     \<and> (rv = 0 \<longrightarrow> size_m m' + 1 = size_m m) \<and> (rv \<noteq> 0 \<longrightarrow> m' = m)"
proof (cases "size_m m = 0")
  case True
  then have "nghttp3_map_remove m k = Some (NGHTTP3_ERR_INVALID_ARGUMENT, m)"
    by (simp add: nghttp3_map_remove_def)
  moreover have "NGHTTP3_ERR_INVALID_ARGUMENT \<noteq> 0" by (simp add: NGHTTP3_ERR_INVALID_ARGUMENT_def)
  ultimately show ?thesis using wf by blast
next
  case False
  from wf_allocated[OF wf] False have b4: "4 \<le> hashbits m" and ok: "arrays_ok m"
    and room: "card (live_slots m) < tablelen m" by simp_all
  let ?B = "remove_body m (2 ^ hashbits m - 1) k"
  from remove_search_within[OF ok room, of k] obtain r where
    r: "within (tablelen m) ?B (map_index m k, 1) = Some r"
    "r = Some (NGHTTP3_ERR_INVALID_ARGUMENT, m)
        \<or> (\<exists>i<tablelen m. psl_at m i \<noteq> 0 \<and>
              r = map_option (\<lambda>m'. (0, m'\<lparr>size_m := size_m m' - 1\<rparr>))
                    (forever (shift_body (2 ^ hashbits m - 1)) (m, i, (i + 1) mod tablelen m)))"
    by blast
  have fr: "forever ?B (map_index m k, 1) = Some r" using r(1) by (rule within_forever)
  have "nghttp3_map_remove m k = Option.bind (forever ?B (map_index m k, 1)) id"
    using False by (simp add: nghttp3_map_remove_def)
  then have res: "nghttp3_map_remove m k = r" unfolding fr by simp
  from r(2) show ?thesis
  proof
    assume "r = Some (NGHTTP3_ERR_INVALID_ARGUMENT, m)"
    with res have "nghttp3_map_remove m k = Some (NGHTTP3_ERR_INVALID_ARGUMENT, m)" by simp
    moreover have "NGHTTP3_ERR_INVALID_ARGUMENT \<noteq> 0" by (simp add: NGHTTP3_ERR_INVALID_ARGUMENT_def)
    ultimately show ?thesis using wf by blast
  next
    assume "\<exists>i<tablelen m. psl_at m i \<noteq> 0 \<and>
              r = map_option (\<lambda>m'. (0, m'\<lparr>size_m := size_m m' - 1\<rparr>))
                    (forever (shift_body (2 ^ hashbits m - 1)) (m, i, (i + 1) mod tablelen m))"
    then obtain i where i: "i < tablelen m" "psl_at m i \<noteq> 0"
      and ri: "r = map_option (\<lambda>m'. (0, m'\<lparr>size_m := size_m m' - 1\<rparr>))
                    (forever (shift_body (2 ^ hashbits m - 1)) (m, i, (i + 1) mod tablelen m))"
      by blast
    from shift_from_live[OF ok room i] obtain m' where
      m': "within (tablelen m) (shift_body (2 ^ hashbits m - 1)) (m, i, (i + 1) mod tablelen m) = Some m'"
      "same_shape m m'" "size_m m' = size_m m" "card (live_slots m') + 1 = card (live_slots m)"
      by blast
    have fs: "forever (shift_body (2 ^ hashbits m - 1)) (m, i, (i + 1) mod tablelen m) = Some m'"
      using m'(1) by (rule within_forever)
    let ?m'' = "m'\<lparr>size_m := size_m m' - 1\<rparr>"
    have "r = Some (0, ?m'')" unfolding ri fs by simp
    with res have res': "nghttp3_map_remove m k = Some (0, ?m'')" by simp
    have "well_formed ?m''" using wf False m'(2,3,4) by (rule wf_shrink)
    moreover have "size_m ?m'' + 1 = size_m m" using m'(3) False by simp
    ultimately show ?thesis using res' by blast
  qed
qed

lemma live_keys_size [simp]: "live_keys (m\<lparr>size_m := n\<rparr>) = live_keys m"
  by (simp add: live_keys_def)

lemma distinct_live_keys_size [simp]: "distinct_live_keys (m\<lparr>size_m := n\<rparr>) = distinct_live_keys m"
  by (simp add: distinct_live_keys_def)








lemma live_slots_init [simp]: "live_slots (nghttp3_map_init sd) = {}"
  by (simp add: live_slots_def nghttp3_map_init_def)

lemma well_formed_init: "well_formed (nghttp3_map_init sd)"
  by (simp add: well_formed_def) (simp add: nghttp3_map_init_def tablelen_def)

lemma live_slots_clear: "size_m m \<noteq> 0 \<Longrightarrow> live_slots (nghttp3_map_clear m) = {}"
  by (simp add: nghttp3_map_clear_def live_slots_def)

lemma well_formed_clear:
  assumes "well_formed m"
  shows "well_formed (nghttp3_map_clear m)"
proof (cases "size_m m = 0")
  case True
  with assms show ?thesis by (simp add: nghttp3_map_clear_def)
next
  case False
  from wf_allocated[OF assms] False have b: "4 \<le> hashbits m" and ok: "arrays_ok m" by simp_all
  let ?c = "m\<lparr>psl := replicate (2 ^ hashbits m) 0, size_m := 0\<rparr>"
  have c: "nghttp3_map_clear m = ?c" using False by (simp add: nghttp3_map_clear_def)
  have "arrays_ok ?c" using ok by (simp add: arrays_ok_def tablelen_def)
  moreover have "live_slots ?c = {}" by (simp add: live_slots_def)
  moreover have "hashbits ?c = hashbits m" "size_m ?c = 0" by simp_all
  moreover have "tablelen ?c = tablelen m" by (simp add: tablelen_def)
  moreover have "0 < tablelen m - tablelen m div 8"
    using assms by (simp add: well_formed_def)
  moreover have "hashbits m \<le> 63" using assms by (simp add: well_formed_def)
  ultimately show ?thesis unfolding c well_formed_def using b by simp
qed

lemma reachable_well_formed: "reachable m \<Longrightarrow> well_formed m"
proof (induction rule: reachable.induct)
  case (init sd)
  show ?case by (rule well_formed_init)
next
  case (insert m calloc_ok k d rv m')
  have d: "d \<noteq> 0"
  proof
    assume "d = 0"
    then have "nghttp3_map_insert calloc_ok m k d = Some Aborted"
      by (simp add: nghttp3_map_insert_def)
    with insert.hyps(2) show False by simp
  qed
  from insert_wf[OF insert.IH d, of calloc_ok k] insert.hyps(2) show ?case by auto
next
  case (remove m k rv m')
  from remove_wf[OF remove.IH, of k] remove.hyps(2) show ?case by auto
next
  case (clear m)
  from clear.IH show ?case by (rule well_formed_clear)
qed

lemma insert_total:
  assumes "well_formed m"
  shows "\<exists>out. nghttp3_map_insert calloc_ok m k d = Some out"
proof (cases "d = 0")
  case True
  then show ?thesis by (simp add: nghttp3_map_insert_def)
next
  case False
  from insert_wf[OF assms False, of calloc_ok k] show ?thesis by blast
qed

lemma find_total:
  assumes "well_formed m"
  shows "\<exists>r. nghttp3_map_find m k = Some r"
proof (cases "size_m m = 0")
  case True
  then show ?thesis by (simp add: nghttp3_map_find_def)
next
  case False
  from wf_allocated[OF assms] False have ok: "arrays_ok m"
    and room: "card (live_slots m) < tablelen m" by simp_all
  from find_search_within[OF ok room, of k] obtain r where
    "within (tablelen m) (find_body m (2 ^ hashbits m - 1) k) (map_index m k, 1) = Some r" ..
  then have "forever (find_body m (2 ^ hashbits m - 1) k) (map_index m k, 1) = Some r"
    by (rule within_forever)
  with False show ?thesis by (simp add: nghttp3_map_find_def)
qed

lemma loops_bounded:
  assumes wf: "well_formed m" and al: "hashbits m \<noteq> 0"
  shows "\<exists>i<tablelen m. psl m ! i = 0"
    and "\<exists>r. within (tablelen m) (map_insert_body (2 ^ hashbits m - 1)) (m, map_index m k, 1, k, d) = Some r"
    and "\<exists>r. within (tablelen m) (find_body m (2 ^ hashbits m - 1) k) (map_index m k, 1) = Some r"
    and "\<exists>r. within (tablelen m) (remove_body m (2 ^ hashbits m - 1) k) (map_index m k, 1) = Some r"
    and "\<forall>i<tablelen m. psl m ! i \<noteq> 0 \<longrightarrow>
          (\<exists>r. within (tablelen m) (shift_body (2 ^ hashbits m - 1))
                  (m, i, (i + 1) AND (2 ^ hashbits m - 1)) = Some r)"
proof -
  from wf_allocated[OF wf] al have ok: "arrays_ok m"
    and room: "card (live_slots m) < tablelen m" by simp_all
  have len: "length (psl m) = tablelen m" using ok by (simp add: arrays_ok_def)
  from empty_slot_exists[OF len room] show "\<exists>i<tablelen m. psl m ! i = 0"
    by (simp add: psl_at_zero)
  from map_insert_terminates[OF ok room, of k d]
  show "\<exists>r. within (tablelen m) (map_insert_body (2 ^ hashbits m - 1)) (m, map_index m k, 1, k, d) = Some r"
    by blast
  from find_search_within[OF ok room, of k]
  show "\<exists>r. within (tablelen m) (find_body m (2 ^ hashbits m - 1) k) (map_index m k, 1) = Some r" .
  from remove_search_within[OF ok room, of k]
  show "\<exists>r. within (tablelen m) (remove_body m (2 ^ hashbits m - 1) k) (map_index m k, 1) = Some r"
    by blast
  show "\<forall>i<tablelen m. psl m ! i \<noteq> 0 \<longrightarrow>
          (\<exists>r. within (tablelen m) (shift_body (2 ^ hashbits m - 1))
                  (m, i, (i + 1) AND (2 ^ hashbits m - 1)) = Some r)"
  proof (intro allI impI)
    fix i assume i: "i < tablelen m" "psl m ! i \<noteq> 0"
    then have "psl_at m i \<noteq> 0" by (simp add: psl_at_zero)
    from shift_from_live[OF ok room i(1) this]
    show "\<exists>r. within (tablelen m) (shift_body (2 ^ hashbits m - 1))
                  (m, i, (i + 1) AND (2 ^ hashbits m - 1)) = Some r"
      unfolding and_msk tablelen_def by blast
  qed
qed

lemma reachable_table_123: "reachable table_123"
proof -
  note b = table_123_built[OF refl refl]
  have "reachable (nghttp3_map_init 0)" by (rule reachable.init)
  then show ?thesis
    using b by (blast intro: reachable.insert)
qed

text \<open>
  C9. In every table state reachable through the public operations, \<^verbatim>\<open>size\<close> is below
  \<open>tablelen - tablelen / 8\<close>. When the table is allocated it therefore has an empty
  slot, and the loops of \<^verbatim>\<open>map_insert\<close>, \<^verbatim>\<open>nghttp3_map_find\<close> and
  \<^verbatim>\<open>nghttp3_map_remove\<close>, and the backward shift started at any live slot, exit within
  \<open>tablelen\<close> iterations. The three operations return.
\<close>

theorem operations_terminate:
  assumes "reachable m"
  shows "size_m m < tablelen m - tablelen m div 8
    \<and> (hashbits m \<noteq> 0 \<longrightarrow>
          (\<exists>i<tablelen m. psl m ! i = 0)
        \<and> (\<exists>r. within (tablelen m) (map_insert_body (2 ^ hashbits m - 1))
                  (m, map_index m k, 1, k, d) = Some r)
        \<and> (\<exists>r. within (tablelen m) (find_body m (2 ^ hashbits m - 1) k) (map_index m k, 1) = Some r)
        \<and> (\<exists>r. within (tablelen m) (remove_body m (2 ^ hashbits m - 1) k) (map_index m k, 1) = Some r)
        \<and> (\<forall>i<tablelen m. psl m ! i \<noteq> 0 \<longrightarrow>
              (\<exists>r. within (tablelen m) (shift_body (2 ^ hashbits m - 1))
                      (m, i, (i + 1) AND (2 ^ hashbits m - 1)) = Some r)))
    \<and> (\<exists>out. nghttp3_map_insert calloc_ok m k d = Some out)
    \<and> (\<exists>r. nghttp3_map_find m k = Some r)
    \<and> (\<exists>r. nghttp3_map_remove m k = Some r)"
proof -
  from assms have wf: "well_formed m" by (rule reachable_well_formed)
  have "size_m m < tablelen m - tablelen m div 8" using wf by (simp add: well_formed_def)
  moreover have "(\<exists>i<tablelen m. psl m ! i = 0)
        \<and> (\<exists>r. within (tablelen m) (map_insert_body (2 ^ hashbits m - 1))
                  (m, map_index m k, 1, k, d) = Some r)
        \<and> (\<exists>r. within (tablelen m) (find_body m (2 ^ hashbits m - 1) k) (map_index m k, 1) = Some r)
        \<and> (\<exists>r. within (tablelen m) (remove_body m (2 ^ hashbits m - 1) k) (map_index m k, 1) = Some r)
        \<and> (\<forall>i<tablelen m. psl m ! i \<noteq> 0 \<longrightarrow>
              (\<exists>r. within (tablelen m) (shift_body (2 ^ hashbits m - 1))
                      (m, i, (i + 1) AND (2 ^ hashbits m - 1)) = Some r))"
    if al: "hashbits m \<noteq> 0"
    by (intro conjI loops_bounded[OF wf al])
  moreover have "\<exists>out. nghttp3_map_insert calloc_ok m k d = Some out"
    using wf by (rule insert_total)
  moreover have "\<exists>r. nghttp3_map_find m k = Some r" using wf by (rule find_total)
  moreover from remove_wf[OF wf, of k] have "\<exists>r. nghttp3_map_remove m k = Some r" by blast
  ultimately show ?thesis by blast
qed

theorem operations_terminate_witness:
  "reachable table_123 \<and> hashbits table_123 \<noteq> 0 \<and> (3::nat) < tablelen table_123
   \<and> psl table_123 ! 3 \<noteq> 0
   \<and> size_m table_123 < tablelen table_123 - tablelen table_123 div 8
   \<and> (\<exists>r. within 16 (find_body table_123 15 2) (map_index table_123 2, 1) = Some r)
   \<and> (\<exists>r. within 16 (shift_body 15) (table_123, 3, 4) = Some r)
   \<and> (\<exists>r. nghttp3_map_remove table_123 2 = Some r)"
proof -
  note t = operations_terminate[OF reachable_table_123, of 2 20 True]
  have e: "hashbits table_123 = 4" "tablelen table_123 = 16" "psl table_123 ! 3 \<noteq> 0"
    "(2::nat) ^ 4 - 1 = 15"
    by (simp_all add: table_123_def tablelen_def)
  have four: "(3 + 1) AND 15 = (4::nat)" by simp
  from t e have "\<forall>i<16. psl table_123 ! i \<noteq> 0 \<longrightarrow>
      (\<exists>r. within 16 (shift_body 15) (table_123, i, (i + 1) AND 15) = Some r)"
    by simp
  from this[rule_format, of 3] e(3) have "\<exists>r. within 16 (shift_body 15) (table_123, 3, 4) = Some r"
    unfolding four by simp
  with t e reachable_table_123 show ?thesis by simp
qed

lemma history_reachable: "history B m M i r \<Longrightarrow> reachable m"
  by (induction rule: history.induct) (auto intro: reachable.intros)

lemma insert_Returned_data:
  assumes "nghttp3_map_insert calloc_ok m k d = Some (Returned (rv, m'))"
  shows "d \<noteq> 0"
proof
  assume "d = 0"
  then have "nghttp3_map_insert calloc_ok m k d = Some Aborted"
    by (simp add: nghttp3_map_insert_def)
  with assms show False by simp
qed

lemma history_size:
  "history B m M i r \<Longrightarrow> well_formed m \<and> size_m m + r = i"
proof (induction rule: history.induct)
  case (init sd)
  show ?case using well_formed_init[of sd] by (simp add: nghttp3_map_init_def)
next
  case (insert_ok m M i r calloc_ok k d m')
  from insert_ok.IH have wf: "well_formed m" and s: "size_m m + r = i" by simp_all
  from insert_wf[OF wf insert_Returned_data[OF insert_ok.hyps(3)], of calloc_ok k] insert_ok.hyps(3)
  have "well_formed m'" "size_m m' = size_m m + 1" by auto
  with s show ?case by simp
next
  case (insert_failed m M i r calloc_ok k d rv m')
  from insert_failed.IH have wf: "well_formed m" and s: "size_m m + r = i" by simp_all
  from insert_wf[OF wf insert_Returned_data[OF insert_failed.hyps(3)], of calloc_ok k]
    insert_failed.hyps(3,4)
  have "well_formed m'" "size_m m' = size_m m" by auto
  with s show ?case by simp
next
  case (remove_ok m M i r k m')
  from remove_ok.IH have wf: "well_formed m" and s: "size_m m + r = i" by simp_all
  from remove_wf[OF wf, of k] remove_ok.hyps(2)
  have "well_formed m'" "size_m m' + 1 = size_m m" by auto
  with s show ?case by simp
next
  case (remove_failed m M i r k rv m')
  from remove_failed.IH have wf: "well_formed m" and s: "size_m m + r = i" by simp_all
  from remove_wf[OF wf, of k] remove_failed.hyps(2,3)
  have "m' = m" by auto
  with wf s show ?case by simp
next
  case (clear m M i r)
  from clear.IH have wf: "well_formed m" by simp
  have "size_m (nghttp3_map_clear m) = 0" by (simp add: nghttp3_map_clear_def)
  with well_formed_clear[OF wf] show ?case by simp
qed

lemma entries_init [simp]: "entries (nghttp3_map_init sd) = {}"
  by (simp add: entries_def nghttp3_map_init_def)



lemma table_inv_empty: "table_inv m \<Longrightarrow> size_m m = 0 \<Longrightarrow> entries m = {}"
proof -
  assume "table_inv m" "size_m m = 0"
  then have "card (live_slots m) = 0" by (simp add: table_inv_def)
  then have "live_slots m = {}" by simp
  then show ?thesis by (simp add: entries_live_slots)
qed







lemma inv_find:
  assumes inv: "table_inv m" and g: "entries m = {(k, d). M k = Some d}"
  shows "nghttp3_map_find m k = Some (case M k of None \<Rightarrow> 0 | Some d \<Rightarrow> d)"
proof (cases "M k")
  case None
  then have "k \<notin> fst ` entries m" using g by (auto simp: image_iff)
  then have "lookup m k = 0" by (rule lookup_absent)
  with find_inv[OF inv, of k] None show ?thesis by simp
next
  case (Some d)
  then have e: "(k, d) \<in> entries m" using g by simp
  have "lookup m k = d"
  proof (cases "hashbits m = 0")
    case True
    then have "tablelen m = 1" by (simp add: tablelen_def)
    moreover from inv have "size_m m < tablelen m - tablelen m div 8" unfolding table_inv_def by blast
    ultimately have "size_m m = 0" by simp
    from table_inv_empty[OF inv this] e show ?thesis by simp
  next
    case False
    with inv have "robin_hood m" by (auto simp: table_inv_def)
    then show ?thesis using e by (rule lookup_in)
  qed
  with find_inv[OF inv, of k] Some show ?thesis by simp
qed






end
